theory Spec2Isabelle
  imports Main "HOL-Library.Sublist"
begin

section \<open>The content tree\<close>

text \<open>
  A node of the editable tree is a text node (a run of characters) or an element (tag name
  as \<^verbatim>\<open>tagName\<close> reports it, i.e. in upper case, attributes, child nodes). The inline
  style \<^verbatim>\<open>style.textAlign\<close> is kept as the attribute \<^verbatim>\<open>text-align\<close>.
  The state holds the child nodes of \<^verbatim>\<open>editorContent\<close>; a node is addressed by the
  list of child indices leading to it from \<^verbatim>\<open>editorContent\<close>, which itself is the
  empty path.
\<close>

datatype node = Text string | Element string "(string \<times> string) list" "node list"

type_synonym path = "nat list"

fun textContent :: "node \<Rightarrow> string" where
  "textContent (Text s) = s"
| "textContent (Element t a cs) = concat (map textContent cs)"

definition textOf :: "node list \<Rightarrow> string" where
  "textOf ns = concat (map textContent ns)"

fun isElement :: "node \<Rightarrow> bool" where
  "isElement (Text s) = False"
| "isElement (Element t a cs) = True"

fun tagName :: "node \<Rightarrow> string" where
  "tagName (Text s) = []"
| "tagName (Element t a cs) = t"

fun attributes :: "node \<Rightarrow> (string \<times> string) list" where
  "attributes (Text s) = []"
| "attributes (Element t a cs) = a"

fun childNodes :: "node \<Rightarrow> node list" where
  "childNodes (Text s) = []"
| "childNodes (Element t a cs) = cs"

text \<open>\<^verbatim>\<open>children\<close>: the element children only.\<close>

definition children :: "node list \<Rightarrow> node list" where
  "children ns = filter isElement ns"

fun nodeAt :: "node list \<Rightarrow> path \<Rightarrow> node option" where
  "nodeAt ns [] = None"
| "nodeAt ns [i] = (if i < length ns then Some (ns ! i) else None)"
| "nodeAt ns (i # p) =
     (if i < length ns
      then (case ns ! i of Element t a cs \<Rightarrow> nodeAt cs p | Text s \<Rightarrow> None)
      else None)"

text \<open>The child nodes of the container at a path; the empty path is \<^verbatim>\<open>editorContent\<close>.\<close>

fun kidsAt :: "node list \<Rightarrow> path \<Rightarrow> node list option" where
  "kidsAt ns [] = Some ns"
| "kidsAt ns (i # p) =
     (if i < length ns
      then (case ns ! i of Element t a cs \<Rightarrow> kidsAt cs p | Text s \<Rightarrow> None)
      else None)"

text \<open>Rewrite the child list of the container at a path, leaving every other node as it is.\<close>

fun modifyAt :: "path \<Rightarrow> (node list \<Rightarrow> node list) \<Rightarrow> node list \<Rightarrow> node list" where
  "modifyAt [] f ns = f ns"
| "modifyAt (i # p) f ns =
     (if i < length ns
      then (case ns ! i of
              Element t a cs \<Rightarrow> ns[i := Element t a (modifyAt p f cs)]
            | Text s \<Rightarrow> ns)
      else ns)"

subsection \<open>Tag names\<close>

definition upperChar :: "char \<Rightarrow> char" where
  "upperChar c =
     (case map_of (zip ''abcdefghijklmnopqrstuvwxyz'' ''ABCDEFGHIJKLMNOPQRSTUVWXYZ'') c of
        Some d \<Rightarrow> d | None \<Rightarrow> c)"

definition lowerChar :: "char \<Rightarrow> char" where
  "lowerChar c =
     (case map_of (zip ''ABCDEFGHIJKLMNOPQRSTUVWXYZ'' ''abcdefghijklmnopqrstuvwxyz'') c of
        Some d \<Rightarrow> d | None \<Rightarrow> c)"

definition toUpperCase :: "string \<Rightarrow> string" where
  "toUpperCase s = map upperChar s"

definition toLowerCase :: "string \<Rightarrow> string" where
  "toLowerCase s = map lowerChar s"

definition BLOCK_TAGS :: "string list" where
  "BLOCK_TAGS = [''P'', ''H1'', ''H2'', ''BLOCKQUOTE'', ''PRE'', ''LI'', ''FIGURE'']"

definition INLINE_TAGS :: "string list" where
  "INLINE_TAGS = [''STRONG'', ''EM'', ''U'', ''S'', ''SUB'', ''SUP'', ''A'']"

section \<open>Selection and editor state\<close>

text \<open>
  A boundary point is a container path and an offset (a character index in a text node, a
  child index in an element). A range is a pair of boundary points, start not after end.
  \<^verbatim>\<open>window.getSelection()\<close> may be null, and a selection may hold no range.
  The anchor of a selection made backwards is the end of its range.
\<close>

type_synonym pos = "path \<times> nat"

record dom_range =
  startContainer :: path
  startOffset :: nat
  endContainer :: path
  endOffset :: nat

record selection =
  ranges :: "dom_range list"
  backward :: bool

record editor =
  doc :: "node list"
  sel :: "selection option"

text \<open>The DOM exceptions that the calls of the program can raise.\<close>

datatype error = IndexSizeError | NotFoundError | InvalidCharacterError

subsection \<open>Creating elements\<close>

text \<open>
  \<^verbatim>\<open>document.createElement(name)\<close> throws \<^verbatim>\<open>InvalidCharacterError\<close> unless the name is
  a valid element local name, and \<^verbatim>\<open>el.setAttribute(name, value)\<close> does so unless the
  name is a valid attribute local name. The DOM standard defines both: an element name is
  not empty; when it starts with an ASCII letter it holds no ASCII white space, no U+0000, no
  \<^verbatim>\<open>/\<close> and no \<^verbatim>\<open>>\<close>; otherwise it starts with a colon, an underscore or a character
  from U+0080 on and goes on with ASCII letters and digits, \<^verbatim>\<open>-\<close>, \<^verbatim>\<open>.\<close>, colons,
  underscores and characters from U+0080 on. An attribute name is not empty and holds no
  ASCII white space, no U+0000, no \<^verbatim>\<open>/\<close>, no \<^verbatim>\<open>=\<close> and no \<^verbatim>\<open>>\<close>. (Browsers
  that still follow the older rule take the Name production of XML instead; the two rules
  agree on the empty name, on names with white space and on names made of ASCII letters and
  digits.) In an HTML document the created element reports its name in upper case, and an
  attribute name is stored in lower case.
\<close>

definition asciiAlpha :: "char list" where
  "asciiAlpha = ''abcdefghijklmnopqrstuvwxyzABCDEFGHIJKLMNOPQRSTUVWXYZ''"

definition asciiDigit :: "char list" where
  "asciiDigit = ''0123456789''"

definition asciiWhitespace :: "char list" where
  "asciiWhitespace = [CHR 0x09, CHR 0x0A, CHR 0x0C, CHR 0x0D, CHR 0x20]"

definition validElementName :: "string \<Rightarrow> bool" where
  "validElementName name =
     (case name of
        [] \<Rightarrow> False
      | c # cs \<Rightarrow>
          if c \<in> set asciiAlpha
          then list_all (\<lambda>x. x \<notin> set (asciiWhitespace @ [CHR 0x00, CHR ''/'', CHR ''>''])) name
          else (c \<in> set '':_'' \<or> digit7 c)
               \<and> list_all (\<lambda>x. x \<in> set (asciiAlpha @ asciiDigit @ ''-.:_'') \<or> digit7 x) cs)"

definition validAttributeName :: "string \<Rightarrow> bool" where
  "validAttributeName name =
     (name \<noteq> [] \<and> list_all (\<lambda>x. x \<notin> set (asciiWhitespace @ [CHR 0x00, CHR ''/'', CHR ''='', CHR ''>''])) name)"

definition createElement :: "string \<Rightarrow> error + node" where
  "createElement tag =
     (if validElementName tag then Inr (Element (toUpperCase tag) [] []) else Inl InvalidCharacterError)"

text \<open>
  \<^verbatim>\<open>setAttribute\<close> on a list of attributes: an attribute of the name keeps its place
  and takes the value, a new one goes to the end.
\<close>

fun setAttr :: "string \<Rightarrow> string \<Rightarrow> (string \<times> string) list \<Rightarrow> (string \<times> string) list" where
  "setAttr k v [] = [(k, v)]"
| "setAttr k v (kv # a) = (if fst kv = k then (k, v) # a else kv # setAttr k v a)"

definition rangeCount :: "selection \<Rightarrow> nat" where
  "rangeCount s = length (ranges s)"

definition getRangeAt0 :: "selection \<Rightarrow> dom_range" where
  "getRangeAt0 s = hd (ranges s)"

definition anchorNode :: "selection \<Rightarrow> path" where
  "anchorNode s = (if backward s then endContainer (getRangeAt0 s) else startContainer (getRangeAt0 s))"

definition collapsed :: "dom_range \<Rightarrow> bool" where
  "collapsed r = (startContainer r = endContainer r \<and> startOffset r = endOffset r)"

definition mkRange :: "pos \<Rightarrow> pos \<Rightarrow> dom_range" where
  "mkRange s e = \<lparr>startContainer = fst s, startOffset = snd s, endContainer = fst e, endOffset = snd e\<rparr>"

text \<open>\<^verbatim>\<open>sel.removeAllRanges(); sel.addRange(range)\<close>\<close>

definition setSelection :: "dom_range \<Rightarrow> selection option" where
  "setSelection r = Some \<lparr>ranges = [r], backward = False\<rparr>"

section \<open>Boundary points and ranges of the DOM\<close>

text \<open>
  The position of one boundary point relative to another, in tree order, as the DOM
  standard defines it: inside the same container the offsets decide; a point in a
  container is before a point inside its child number \<open>j\<close> when its offset is at most
  \<open>j\<close>, and after it otherwise.
\<close>

datatype ordering = Before | Equal | After

fun cmpPath :: "path \<Rightarrow> nat \<Rightarrow> path \<Rightarrow> nat \<Rightarrow> ordering" where
  "cmpPath [] a [] b = (if a < b then Before else if a = b then Equal else After)"
| "cmpPath [] a (j # q) b = (if a \<le> j then Before else After)"
| "cmpPath (i # p) a [] b = (if i < b then Before else After)"
| "cmpPath (i # p) a (j # q) b =
     (if i < j then Before else if j < i then After else cmpPath p a q b)"

definition cmpPos :: "pos \<Rightarrow> pos \<Rightarrow> ordering" where
  "cmpPos x y = cmpPath (fst x) (snd x) (fst y) (snd y)"

definition rangeStart :: "dom_range \<Rightarrow> pos" where
  "rangeStart r = (startContainer r, startOffset r)"

definition rangeEnd :: "dom_range \<Rightarrow> pos" where
  "rangeEnd r = (endContainer r, endOffset r)"

fun commonPrefix :: "path \<Rightarrow> path \<Rightarrow> path" where
  "commonPrefix (i # p) (j # q) = (if i = j then i # commonPrefix p q else [])"
| "commonPrefix p q = []"

definition commonAncestorContainer :: "dom_range \<Rightarrow> path" where
  "commonAncestorContainer r = commonPrefix (startContainer r) (endContainer r)"

text \<open>The length of the node at a path: characters of a text node, child nodes of an element.\<close>

definition nodeLength :: "node list \<Rightarrow> path \<Rightarrow> nat" where
  "nodeLength d p =
     (if p = [] then length d
      else (case nodeAt d p of
              Some (Text s) \<Rightarrow> length s
            | Some (Element t a cs) \<Rightarrow> length cs
            | None \<Rightarrow> 0))"

definition isTextAt :: "node list \<Rightarrow> path \<Rightarrow> bool" where
  "isTextAt d p = (case nodeAt d p of Some (Text s) \<Rightarrow> True | _ \<Rightarrow> False)"

definition selectNodeContents :: "node list \<Rightarrow> path \<Rightarrow> dom_range" where
  "selectNodeContents d p = mkRange (p, 0) (p, nodeLength d p)"

text \<open>
  A boundary point is valid when its container exists and its offset does not exceed the
  container's length; the DOM keeps every range valid, with its start not after its end.
\<close>

definition validPos :: "node list \<Rightarrow> pos \<Rightarrow> bool" where
  "validPos d x = ((fst x = [] \<or> nodeAt d (fst x) \<noteq> None) \<and> snd x \<le> nodeLength d (fst x))"

definition validRange :: "node list \<Rightarrow> dom_range \<Rightarrow> bool" where
  "validRange d r = (validPos d (rangeStart r) \<and> validPos d (rangeEnd r) \<and> cmpPos (rangeStart r) (rangeEnd r) \<noteq> After)"

text \<open>
  \<^verbatim>\<open>range.intersectsNode(node)\<close> for a node with a parent: the point before the node
  is before the range's end and the point after the node is after the range's start.
\<close>

definition intersectsNode :: "dom_range \<Rightarrow> path \<Rightarrow> bool" where
  "intersectsNode r q =
     (q \<noteq> [] \<and> cmpPos (butlast q, last q) (rangeEnd r) = Before
             \<and> cmpPos (butlast q, Suc (last q)) (rangeStart r) = After)"

text \<open>
  All nodes below a container in tree order, each with its path: what a
  \<^verbatim>\<open>TreeWalker\<close> rooted at the container visits with \<^verbatim>\<open>nextNode()\<close> when its
  filter only ever answers accept or skip.
\<close>

fun walkNodes :: "path \<Rightarrow> nat \<Rightarrow> node list \<Rightarrow> (path \<times> node) list" where
  "walkNodes pre i [] = []"
| "walkNodes pre i (Text s # ns) = (pre @ [i], Text s) # walkNodes pre (Suc i) ns"
| "walkNodes pre i (Element t a cs # ns) =
     (pre @ [i], Element t a cs) # walkNodes (pre @ [i]) 0 cs @ walkNodes pre (Suc i) ns"

section \<open>DOM helpers\<close>

text \<open>
  \<^verbatim>\<open>walkUp\<close> visits the node and its ancestors up to, and excluding,
  \<^verbatim>\<open>editorContent\<close>; the model returns the first node the callback accepts.
\<close>

function walkUp :: "node list \<Rightarrow> path \<Rightarrow> (node \<Rightarrow> bool) \<Rightarrow> path option" where
  "walkUp d p callback =
     (if p = [] then None
      else (case nodeAt d p of
              None \<Rightarrow> None
            | Some current \<Rightarrow> if callback current then Some p else walkUp d (butlast p) callback))"
  by pat_completeness auto
termination
  by (relation "measure (\<lambda>(d, p, c). length p)") auto

declare walkUp.simps [simp del]

definition isElementWithTag :: "node \<Rightarrow> string \<Rightarrow> bool" where
  "isElementWithTag n tag = (isElement n \<and> tagName n = toUpperCase tag)"

definition findAncestor :: "node list \<Rightarrow> path \<Rightarrow> string \<Rightarrow> path option" where
  "findAncestor d p tag = walkUp d p (\<lambda>current. isElementWithTag current tag)"

definition findParentBlock :: "node list \<Rightarrow> path \<Rightarrow> path option" where
  "findParentBlock d p = walkUp d p (\<lambda>current. isElement current \<and> tagName current \<in> set BLOCK_TAGS)"

definition getParentBlock :: "node list \<Rightarrow> path \<Rightarrow> path option" where
  "getParentBlock d p = findParentBlock d p"

section \<open>State detection\<close>

definition isInElement :: "string \<Rightarrow> editor \<Rightarrow> bool" where
  "isInElement tag st =
     (case sel st of
        None \<Rightarrow> False
      | Some s \<Rightarrow> if rangeCount s = 0 then False
                  else findAncestor (doc st) (anchorNode s) tag \<noteq> None)"

function fullyWrappedFrom :: "node list \<Rightarrow> dom_range \<Rightarrow> string \<Rightarrow> path \<Rightarrow> bool" where
  "fullyWrappedFrom d r tag ancestor =
     (if ancestor = [] then False
      else (case nodeAt d ancestor of
              None \<Rightarrow> False
            | Some n \<Rightarrow>
                if isElement n \<and> tagName n = tag
                   \<and> (let elRange = selectNodeContents d ancestor;
                           startsInside = (cmpPos (rangeStart elRange) (rangeStart r) \<noteq> After);
                           endsInside = (cmpPos (rangeEnd elRange) (rangeEnd r) \<noteq> Before)
                       in startsInside \<and> endsInside)
                then True
                else fullyWrappedFrom d r tag (butlast ancestor)))"
  by pat_completeness auto
termination
  by (relation "measure (\<lambda>(d, r, t, p). length p)") auto

declare fullyWrappedFrom.simps [simp del]

definition isSelectionFullyWrapped :: "string \<Rightarrow> editor \<Rightarrow> bool" where
  "isSelectionFullyWrapped tag st =
     (case sel st of
        None \<Rightarrow> False
      | Some s \<Rightarrow>
          if rangeCount s = 0 then False
          else (let r = getRangeAt0 s;
                    ancestor = commonAncestorContainer r;
                    ancestor = (if isTextAt (doc st) ancestor then butlast ancestor else ancestor)
                in fullyWrappedFrom (doc st) r (toUpperCase tag) ancestor))"

text \<open>
  The reading of "fully wrapped" in the specification's testable property: every text node
  with a selected character (a character whose two neighbouring boundary points both lie
  within the range) has an ancestor element of the tag. This definition follows the
  specification's words; \<open>isSelectionFullyWrapped\<close> above follows the source.
\<close>

definition selectedTextNodes :: "node list \<Rightarrow> dom_range \<Rightarrow> path list" where
  "selectedTextNodes d r =
     map fst (filter (\<lambda>(q, n). \<not> isElement n \<and>
                 (\<exists>c \<in> set [0..<length (textContent n)].
                     cmpPos (rangeStart r) (q, c) \<noteq> After \<and> cmpPos (q, Suc c) (rangeEnd r) \<noteq> After))
              (walkNodes [] 0 d))"

definition allSelectedTextWrapped :: "string \<Rightarrow> editor \<Rightarrow> bool" where
  "allSelectedTextWrapped tag st =
     (case sel st of None \<Rightarrow> True
      | Some s \<Rightarrow> (case ranges s of [] \<Rightarrow> True
          | r # _ \<Rightarrow> list_all (\<lambda>q. findAncestor (doc st) q tag \<noteq> None) (selectedTextNodes (doc st) r)))"

section \<open>Range manipulation\<close>

definition blockTags :: "string list" where
  "blockTags = [''P'', ''H1'', ''H2'', ''BLOCKQUOTE'', ''PRE'', ''LI'']"

definition getBlocksInSelection :: "node list \<Rightarrow> dom_range \<Rightarrow> path list" where
  "getBlocksInSelection d r =
     (let c = commonAncestorContainer r;
          root = (if isTextAt d c then butlast c else c)
      in (case kidsAt d root of
            None \<Rightarrow> []
          | Some kids \<Rightarrow>
              map fst (filter (\<lambda>(q, el). isElement el \<and> tagName el \<in> set blockTags \<and> intersectsNode r q)
                              (walkNodes root 0 kids))))"

section \<open>Primitive tree mutations\<close>

definition removeAt :: "nat \<Rightarrow> 'a list \<Rightarrow> 'a list" where
  "removeAt k xs = take k xs @ drop (Suc k) xs"

definition insertAt :: "nat \<Rightarrow> 'a \<Rightarrow> 'a list \<Rightarrow> 'a list" where
  "insertAt k x xs = take k xs @ [x] @ drop k xs"

text \<open>
  \<^verbatim>\<open>newBlock.innerHTML = block.innerHTML\<close>: the child nodes of the block are
  serialised to markup, and the markup is parsed again as the content of the new element.
  The serialiser and the parser are the browser's, not this program's, so the operations
  that copy content this way take the round trip as a parameter: \<open>rt t cs\<close> are the
  child nodes that an element with the tag name \<open>t\<close> has after its
  \<^verbatim>\<open>innerHTML\<close> was set to the serialisation of the nodes \<open>cs\<close>.
\<close>

type_synonym roundTrip = "string \<Rightarrow> node list \<Rightarrow> node list"

text \<open>
  The round trip for content that the HTML parser has no reason to restructure (text and
  inline elements in a paragraph, a heading or a list item, attribute values without
  carriage return and U+0000). The elements come back as fresh copies with their
  attributes. Text nodes that stand side by side are serialised as one run of characters
  and come back as one node. The parser's input stream turns every pair CR LF and every
  other CR into LF, its tree builder then drops U+0000, and it makes no empty text node.
\<close>

fun mergeText :: "node list \<Rightarrow> node list" where
  "mergeText [] = []"
| "mergeText (Text s # ns) = (case mergeText ns of Text s' # r \<Rightarrow> Text (s @ s') # r | r \<Rightarrow> Text s # r)"
| "mergeText (Element t a cs # ns) = Element t a (mergeText cs) # mergeText ns"

fun normalizeNewlines :: "string \<Rightarrow> string" where
  "normalizeNewlines [] = []"
| "normalizeNewlines [c] = (if c = CHR 0x0D then [CHR 0x0A] else [c])"
| "normalizeNewlines (c # c' # cs) =
     (if c = CHR 0x0D
      then (if c' = CHR 0x0A then CHR 0x0A # normalizeNewlines cs
            else CHR 0x0A # normalizeNewlines (c' # cs))
      else c # normalizeNewlines (c' # cs))"

definition parsedText :: "string \<Rightarrow> string" where
  "parsedText s = filter (\<lambda>c. c \<noteq> CHR 0x00) (normalizeNewlines s)"

fun parseNodes :: "node list \<Rightarrow> node list" where
  "parseNodes [] = []"
| "parseNodes (Text s # ns) =
     (if parsedText s = [] then parseNodes ns else Text (parsedText s) # parseNodes ns)"
| "parseNodes (Element t a cs # ns) = Element t a (parseNodes cs) # parseNodes ns"

definition reparse :: "roundTrip" where
  "reparse t ns = parseNodes (mergeText ns)"

text \<open>
  The loop \<^verbatim>\<open>while (el.firstChild) parent.insertBefore(el.firstChild, el)\<close> on the
  child list of the parent, \<open>k\<close> being the index of \<open>el\<close>; it returns the index at which
  \<open>el\<close> ends up. \<^verbatim>\<open>parent.removeChild(el)\<close> follows.
\<close>

function moveChildrenOut :: "node list \<Rightarrow> nat \<Rightarrow> node list \<times> nat" where
  "moveChildrenOut sibs k =
     (if k < length sibs \<and> childNodes (sibs ! k) \<noteq> []
      then moveChildrenOut
             (take k sibs
                @ [hd (childNodes (sibs ! k)),
                   Element (tagName (sibs ! k)) (attributes (sibs ! k)) (tl (childNodes (sibs ! k)))]
                @ drop (Suc k) sibs)
             (Suc k)
      else (sibs, k))"
  by pat_completeness auto
termination
  by (relation "measure (\<lambda>(sibs, k). length (childNodes (sibs ! k)))") (auto simp: nth_append)

declare moveChildrenOut.simps [simp del]

definition unwrapElement :: "path \<Rightarrow> node list \<Rightarrow> node list" where
  "unwrapElement p d =
     modifyAt (butlast p) (\<lambda>sibs. case moveChildrenOut sibs (last p) of (sibs', k') \<Rightarrow> removeAt k' sibs') d"

text \<open>
  What the DOM does to a live boundary point while the element at \<open>p\<close>, which has \<open>n\<close>
  children, is unwrapped: a point inside the element or its children ends up in the
  parent, just after the children that were moved out; points behind the element shift by
  the \<open>n - 1\<close> nodes the parent gained.
\<close>

definition unwrapAdjust :: "path \<Rightarrow> nat \<Rightarrow> pos \<Rightarrow> pos" where
  "unwrapAdjust p n x =
     (let pp = butlast p; k = last p; c = fst x; off = snd x
      in if prefix p c then (pp, k + n)
         else if c = pp then (if off \<le> k then (c, off) else (c, off + n - 1))
         else if prefix pp c \<and> k < c ! length pp
              then (pp @ [c ! length pp + n - 1] @ drop (Suc (length pp)) c, off)
         else (c, off))"

definition adjustRange :: "(pos \<Rightarrow> pos) \<Rightarrow> dom_range \<Rightarrow> dom_range" where
  "adjustRange f r = mkRange (f (rangeStart r)) (f (rangeEnd r))"

definition adjustSelection :: "(pos \<Rightarrow> pos) \<Rightarrow> selection \<Rightarrow> selection" where
  "adjustSelection f s = s\<lparr>ranges := map (adjustRange f) (ranges s)\<rparr>"

text \<open>
  \<^verbatim>\<open>block.style.textAlign = value\<close>. The empty string removes the declaration. Any
  other value goes through the CSS parser: surrounding white space is dropped, the keyword
  is read without regard to letter case and stored in lower case, and a value that is no
  keyword of the property leaves the style as it is. The keywords are those of CSS Text
  Level 3 for \<^verbatim>\<open>text-align\<close> and the keywords every property takes (CSS Cascade
  Level 5); the vendor keywords that single browsers add are left out.
\<close>

definition textAlignKeywords :: "string list" where
  "textAlignKeywords =
     [''start'', ''end'', ''left'', ''right'', ''center'', ''justify'', ''match-parent'', ''justify-all'',
      ''initial'', ''inherit'', ''unset'', ''revert'', ''revert-layer'']"

definition trim :: "string \<Rightarrow> string" where
  "trim v = rev (dropWhile (\<lambda>c. c \<in> set asciiWhitespace) (rev (dropWhile (\<lambda>c. c \<in> set asciiWhitespace) v)))"

definition cssTextAlign :: "string \<Rightarrow> string option" where
  "cssTextAlign v =
     (let w = toLowerCase (trim v) in if w \<in> set textAlignKeywords then Some w else None)"

definition setTextAlign :: "string \<Rightarrow> node \<Rightarrow> node" where
  "setTextAlign v n =
     (case n of
        Text s \<Rightarrow> Text s
      | Element t a cs \<Rightarrow>
          if v = [] then Element t (filter (\<lambda>kv. fst kv \<noteq> ''text-align'') a) cs
          else (case cssTextAlign v of
                  None \<Rightarrow> Element t a cs
                | Some w \<Rightarrow> Element t (setAttr ''text-align'' w a) cs))"

definition modifyNode :: "path \<Rightarrow> (node \<Rightarrow> node) \<Rightarrow> node list \<Rightarrow> node list" where
  "modifyNode p f d =
     modifyAt (butlast p) (\<lambda>sibs. if last p < length sibs then sibs[last p := f (sibs ! last p)] else sibs) d"

section \<open>Style manipulation: unwrapping\<close>

definition unwrapSelection :: "string \<Rightarrow> editor \<Rightarrow> editor" where
  "unwrapSelection tagName' st =
     (case sel st of
        None \<Rightarrow> st
      | Some s \<Rightarrow>
          if rangeCount s = 0 then st
          else (let tag = toUpperCase tagName'
                in (case walkUp (doc st) (anchorNode s) (\<lambda>node. isElement node \<and> tagName node = tag) of
                      None \<Rightarrow> st
                    | Some p \<Rightarrow>
                        \<lparr>doc = unwrapElement p (doc st),
                         sel = Some (adjustSelection (unwrapAdjust p (nodeLength (doc st) p)) s)\<rparr>)))"

section \<open>Block type and alignment\<close>

text \<open>
  The list handling shared, word for word, by \<^verbatim>\<open>setBlockType\<close> and the demoting
  branch of \<^verbatim>\<open>toggleList\<close>. \<open>sibs\<close> are the child nodes of \<^verbatim>\<open>listParent\<close>,
  \<open>li\<close> is the index of \<^verbatim>\<open>listEl\<close> among them and \<open>k\<close> the index of
  \<^verbatim>\<open>block\<close> among the child nodes of \<^verbatim>\<open>listEl\<close>. The result is the new child
  list of \<^verbatim>\<open>listParent\<close> and the index of \<^verbatim>\<open>newBlock\<close> in it.
\<close>

definition extractListItem :: "node \<Rightarrow> node list \<Rightarrow> nat \<Rightarrow> nat \<Rightarrow> node list \<times> nat" where
  "extractListItem newBlock sibs li k =
     (case sibs ! li of
        Text s \<Rightarrow> (sibs, li)
      | Element lt la lcs \<Rightarrow>
          (let itemIndex = length (children (take k lcs));
               totalItems = length (children lcs)
           in if totalItems = 1 then (sibs[li := newBlock], li)
              else if itemIndex = 0
                then (take li sibs @ [newBlock, Element lt la (removeAt k lcs)] @ drop (Suc li) sibs, li)
              else if itemIndex = totalItems - 1
                then (take li sibs @ [Element lt la (removeAt k lcs), newBlock] @ drop (Suc li) sibs, Suc li)
              else (take li sibs @ [Element lt la (take k lcs), newBlock, Element lt [] (drop (Suc k) lcs)]
                      @ drop (Suc li) sibs, Suc li)))"

text \<open>\<^verbatim>\<open>range.selectNodeContents(n); range.collapse(false)\<close> for a node with \<open>len\<close> children.\<close>

definition collapsedAtEnd :: "path \<Rightarrow> nat \<Rightarrow> dom_range" where
  "collapsedAtEnd p len = mkRange (p, len) (p, len)"

text \<open>
  \<^verbatim>\<open>editorContent\<close> is the DIV that \<^verbatim>\<open>init\<close> creates, so a list item lying
  directly in it has no list element as its parent.
\<close>

definition isListElementAt :: "node list \<Rightarrow> path \<Rightarrow> bool" where
  "isListElementAt d lp =
     (lp \<noteq> [] \<and> (case nodeAt d lp of
                     Some (Element lt la lcs) \<Rightarrow> lt = ''UL'' \<or> lt = ''OL''
                   | _ \<Rightarrow> False))"

definition setBlockType :: "roundTrip \<Rightarrow> string \<Rightarrow> editor \<Rightarrow> error + editor" where
  "setBlockType rt tagName' st =
     (case sel st of
        None \<Rightarrow> Inr st
      | Some s \<Rightarrow>
          if rangeCount s = 0 then Inr st
          else (case getParentBlock (doc st) (anchorNode s) of
                  None \<Rightarrow> Inr st
                | Some bp \<Rightarrow>
                   (case nodeAt (doc st) bp of
                      None \<Rightarrow> Inr st
                    | Some block \<Rightarrow>
                        if toLowerCase (tagName block) = toLowerCase tagName' then Inr st
                        else (case createElement tagName' of
                                Inl e \<Rightarrow> Inl e
                              | Inr el \<Rightarrow>
                                  if tagName block = ''LI'' \<and> isListElementAt (doc st) (butlast bp)
                                  then (let lp = butlast bp; listParent = butlast lp;
                                            newBlock = Element (tagName el) [] (rt (tagName el) (childNodes block));
                                            sibs = (case kidsAt (doc st) listParent of Some ks \<Rightarrow> ks | None \<Rightarrow> []);
                                            res = extractListItem newBlock sibs (last lp) (last bp)
                                        in Inr \<lparr>doc = modifyAt listParent (\<lambda>_. fst res) (doc st),
                                                sel = setSelection (collapsedAtEnd (listParent @ [snd res])
                                                                       (length (childNodes newBlock)))\<rparr>)
                                  else (let newBlock = Element (tagName el)
                                               (filter (\<lambda>kv. fst kv = ''text-align'' \<and> snd kv \<noteq> []) (attributes block))
                                               (rt (tagName el) (childNodes block))
                                        in Inr \<lparr>doc = modifyNode bp (\<lambda>_. newBlock) (doc st),
                                                sel = setSelection (collapsedAtEnd bp (length (childNodes newBlock)))\<rparr>)))))"

definition setAlignment :: "string \<Rightarrow> editor \<Rightarrow> editor" where
  "setAlignment v st =
     (case sel st of
        None \<Rightarrow> st
      | Some s \<Rightarrow>
          if rangeCount s = 0 then st
          else (case getParentBlock (doc st) (anchorNode s) of
                  None \<Rightarrow> st
                | Some bp \<Rightarrow> st\<lparr>doc := modifyNode bp (setTextAlign v) (doc st)\<rparr>))"

section \<open>List manipulation\<close>

datatype listType = ul | ol

fun listTypeName :: "listType \<Rightarrow> string" where
  "listTypeName ul = ''ul''"
| "listTypeName ol = ''ol''"

text \<open>\<^verbatim>\<open>Array.prototype.indexOf\<close>: the index of the first occurrence, or -1.\<close>

fun indexOf :: "'a list \<Rightarrow> 'a \<Rightarrow> int" where
  "indexOf [] x = -1"
| "indexOf (y # ys) x = (if x = y then 0 else (let r = indexOf ys x in if r < 0 then -1 else r + 1))"

text \<open>Reading a collection at an index: \<^verbatim>\<open>undefined\<close> outside of it.\<close>

definition at :: "'a list \<Rightarrow> int \<Rightarrow> 'a option" where
  "at xs i = (if 0 \<le> i \<and> nat i < length xs then Some (xs ! nat i) else None)"

text \<open>The indices, among the child nodes, of the element children.\<close>

definition childrenIndices :: "node list \<Rightarrow> nat list" where
  "childrenIndices ns = filter (\<lambda>i. isElement (ns ! i)) [0..<length ns]"

definition lastElementChild :: "node list \<Rightarrow> nat option" where
  "lastElementChild ns = (case childrenIndices ns of [] \<Rightarrow> None | is \<Rightarrow> Some (last is))"

text \<open>
  In the converting branch every child node of \<^verbatim>\<open>listEl\<close> has moved to
  \<^verbatim>\<open>newList\<close> before the selection is restored, so \<^verbatim>\<open>listEl.children\<close> is
  empty when \<^verbatim>\<open>indexOf(block)\<close> is evaluated.

  For a list item that lies directly in \<^verbatim>\<open>editorContent\<close> the source takes
  \<^verbatim>\<open>editorContent\<close> itself for the list. It is the DIV that \<^verbatim>\<open>init\<close> creates,
  so its tag is never the requested list type and the converting branch runs: all child
  nodes of \<^verbatim>\<open>editorContent\<close> move into the new list, which replaces
  \<^verbatim>\<open>editorContent\<close> in the page. \<^verbatim>\<open>editorContent\<close> is left without children,
  and the selection is set into the new list, outside of it; the state keeps that
  selection with the path its item has below the new list.
\<close>

definition toggleList :: "roundTrip \<Rightarrow> listType \<Rightarrow> editor \<Rightarrow> error + editor" where
  "toggleList rt type st =
     (case sel st of
        None \<Rightarrow> Inr st
      | Some s \<Rightarrow>
          if rangeCount s = 0 then Inr st
          else (case getParentBlock (doc st) (anchorNode s) of
                  None \<Rightarrow> Inr st
                | Some bp \<Rightarrow>
                   (case nodeAt (doc st) bp of
                      None \<Rightarrow> Inr st
                    | Some block \<Rightarrow>
                        if tagName block = ''LI''
                        then (let lp = butlast bp; listParent = butlast lp
                              in if lp = []
                                 then (let newKids = doc st;
                                           oldKids = [];
                                           newItem = (case at (childrenIndices newKids)
                                                             (indexOf (childrenIndices oldKids) (last bp)) of
                                                        Some i \<Rightarrow> Some i
                                                      | None \<Rightarrow> lastElementChild newKids)
                                       in (case newItem of
                                             Some i \<Rightarrow>
                                               Inr \<lparr>doc = [],
                                                    sel = setSelection (collapsedAtEnd [i]
                                                            (length (childNodes (newKids ! i))))\<rparr>
                                           | None \<Rightarrow> Inr \<lparr>doc = [], sel = sel st\<rparr>))
                                 else (case nodeAt (doc st) lp of
                                    None \<Rightarrow> Inr st
                                  | Some listEl \<Rightarrow>
                                      if toLowerCase (tagName listEl) = listTypeName type
                                      then (let p = Element ''P'' [] (rt ''P'' (childNodes block));
                                                sibs = (case kidsAt (doc st) listParent of Some ks \<Rightarrow> ks | None \<Rightarrow> []);
                                                res = extractListItem p sibs (last lp) (last bp)
                                            in Inr \<lparr>doc = modifyAt listParent (\<lambda>_. fst res) (doc st),
                                                    sel = setSelection (collapsedAtEnd (listParent @ [snd res])
                                                                           (length (childNodes p)))\<rparr>)
                                      else (let newKids = childNodes listEl;
                                                oldKids = [];
                                                newList = Element (toUpperCase (listTypeName type)) [] newKids;
                                                d' = modifyNode lp (\<lambda>_. newList) (doc st);
                                                newItem = (case at (childrenIndices newKids)
                                                                  (indexOf (childrenIndices oldKids) (last bp)) of
                                                             Some i \<Rightarrow> Some i
                                                           | None \<Rightarrow> lastElementChild newKids)
                                            in (case newItem of
                                                  Some i \<Rightarrow>
                                                    Inr \<lparr>doc = d',
                                                         sel = setSelection (collapsedAtEnd (lp @ [i])
                                                                 (length (childNodes (newKids ! i))))\<rparr>
                                                | None \<Rightarrow> Inr \<lparr>doc = d', sel = sel st\<rparr>))))
                        else (let li = Element ''LI'' [] (rt ''LI'' (childNodes block));
                                  list = Element (toUpperCase (listTypeName type)) [] [li]
                              in Inr \<lparr>doc = modifyNode bp (\<lambda>_. list) (doc st),
                                      sel = setSelection (collapsedAtEnd (bp @ [0]) (length (childNodes li)))\<rparr>))))"

section \<open>Wrapping a range\<close>

subsection \<open>\<^verbatim>\<open>Range.extractContents\<close> and \<^verbatim>\<open>Range.insertNode\<close>\<close>

text \<open>
  The DOM's extraction of a range, on the child list of the range's common ancestor
  container. A child that holds only the start of the range is partially contained: it
  is cloned, the part of it behind the start moves into the clone, the rest stays
  (\<open>extractFrom\<close>). The child that holds only the end is treated alike (\<open>extractUpTo\<close>).
  The children in between move to the fragment as they are. Each function returns the
  extracted part first and what remains in the tree second; \<open>None\<close> stands for a
  boundary point that does not exist in the tree.
\<close>

fun extractFrom :: "node \<Rightarrow> path \<Rightarrow> nat \<Rightarrow> (node \<times> node) option" where
  "extractFrom (Text s) [] off =
     (if off \<le> length s then Some (Text (drop off s), Text (take off s)) else None)"
| "extractFrom (Text s) (i # p) off = None"
| "extractFrom (Element t a cs) [] off =
     (if off \<le> length cs then Some (Element t a (drop off cs), Element t a (take off cs)) else None)"
| "extractFrom (Element t a cs) (i # p) off =
     (if i < length cs
      then (case extractFrom (cs ! i) p off of
              None \<Rightarrow> None
            | Some (f, r) \<Rightarrow> Some (Element t a (f # drop (Suc i) cs), Element t a (take i cs @ [r])))
      else None)"

fun extractUpTo :: "node \<Rightarrow> path \<Rightarrow> nat \<Rightarrow> (node \<times> node) option" where
  "extractUpTo (Text s) [] off =
     (if off \<le> length s then Some (Text (take off s), Text (drop off s)) else None)"
| "extractUpTo (Text s) (j # q) off = None"
| "extractUpTo (Element t a cs) [] off =
     (if off \<le> length cs then Some (Element t a (take off cs), Element t a (drop off cs)) else None)"
| "extractUpTo (Element t a cs) (j # q) off =
     (if j < length cs
      then (case extractUpTo (cs ! j) q off of
              None \<Rightarrow> None
            | Some (f, r) \<Rightarrow> Some (Element t a (take j cs @ [f]), Element t a (r # drop (Suc j) cs)))
      else None)"

text \<open>
  The result of \<open>extractContents\<close>: the fragment, the remaining child list of the common
  ancestor, and the child index at which the range has collapsed.
\<close>

fun extractContents :: "node list \<Rightarrow> path \<Rightarrow> nat \<Rightarrow> path \<Rightarrow> nat \<Rightarrow> (node list \<times> node list \<times> nat) option" where
  "extractContents ns [] so [] eo =
     (if so \<le> eo \<and> eo \<le> length ns
      then Some (take (eo - so) (drop so ns), take so ns @ drop eo ns, so)
      else None)"
| "extractContents ns [] so (j # q) eo =
     (if so \<le> j \<and> j < length ns
      then (case extractUpTo (ns ! j) q eo of
              None \<Rightarrow> None
            | Some (f, r) \<Rightarrow>
                Some (take (j - so) (drop so ns) @ [f], take so ns @ [r] @ drop (Suc j) ns, so))
      else None)"
| "extractContents ns (i # p) so [] eo =
     (if i < eo \<and> eo \<le> length ns
      then (case extractFrom (ns ! i) p so of
              None \<Rightarrow> None
            | Some (f, r) \<Rightarrow>
                Some (f # take (eo - Suc i) (drop (Suc i) ns), take i ns @ [r] @ drop eo ns, Suc i))
      else None)"
| "extractContents ns (i # p) so (j # q) eo =
     (if i < j \<and> j < length ns
      then (case extractFrom (ns ! i) p so of
              None \<Rightarrow> None
            | Some (f1, r1) \<Rightarrow>
               (case extractUpTo (ns ! j) q eo of
                  None \<Rightarrow> None
                | Some (f2, r2) \<Rightarrow>
                    Some (f1 # take (j - Suc i) (drop (Suc i) ns) @ [f2],
                          take i ns @ [r1, r2] @ drop (Suc j) ns, Suc i)))
      else None)"

subsection \<open>\<^verbatim>\<open>removeTagsFromFragment\<close>\<close>

text \<open>
  \<^verbatim>\<open>fragment.querySelectorAll(tagName)\<close>: the paths, in tree order, of the elements of
  the tag (the tag name acts as a type selector).
\<close>

fun bump :: "path \<Rightarrow> path" where
  "bump [] = []"
| "bump (i # p) = Suc i # p"

fun querySelectorAll :: "string \<Rightarrow> node list \<Rightarrow> path list" where
  "querySelectorAll tag [] = []"
| "querySelectorAll tag (Text s # ns) = map bump (querySelectorAll tag ns)"
| "querySelectorAll tag (Element t a cs # ns) =
     (if t = tag then [[0]] else []) @ map ((#) 0) (querySelectorAll tag cs)
       @ map bump (querySelectorAll tag ns)"

text \<open>
  \<^verbatim>\<open>elements.forEach\<close> visits the elements of the static list in tree order and
  unwraps each one. When an element is visited, every element before it in the list has
  been unwrapped, so it is the first element of the tag, in tree order, of the fragment as
  it is then. The loop runs once per element of the list.
\<close>

fun removeTagsLoop :: "nat \<Rightarrow> string \<Rightarrow> node list \<Rightarrow> node list" where
  "removeTagsLoop 0 tag frag = frag"
| "removeTagsLoop (Suc n) tag frag =
     (case querySelectorAll tag frag of
        [] \<Rightarrow> frag
      | el # _ \<Rightarrow> removeTagsLoop n tag (unwrapElement el frag))"

definition removeTagsFromFragment :: "node list \<Rightarrow> string \<Rightarrow> node list" where
  "removeTagsFromFragment fragment tagName' =
     (let tag = toUpperCase tagName';
          elements = querySelectorAll tag fragment
      in removeTagsLoop (length elements) tag fragment)"

subsection \<open>\<^verbatim>\<open>cleanupEmptyElements\<close>\<close>

text \<open>
  For one tag, the source walks the live collection \<^verbatim>\<open>getElementsByTagName(tag)\<close>
  backwards and removes each element whose text content is empty. Walking backwards, an
  element is visited after all its descendants, and removing an empty element changes no
  text content, so the loop removes exactly the elements of the tag with empty text.
\<close>

fun removeEmpty :: "string \<Rightarrow> node list \<Rightarrow> node list" where
  "removeEmpty tag [] = []"
| "removeEmpty tag (Text s # ns) = Text s # removeEmpty tag ns"
| "removeEmpty tag (Element t a cs # ns) =
     (if t = tag \<and> textContent (Element t a cs) = []
      then removeEmpty tag ns
      else Element t a (removeEmpty tag cs) # removeEmpty tag ns)"

definition cleanupEmptyElements :: "node list \<Rightarrow> node list" where
  "cleanupEmptyElements kids =
     (let inlineTags = [''STRONG'', ''EM'', ''U'', ''S'', ''SUB'', ''SUP'', ''A'']
      in foldl (\<lambda>ks tag. removeEmpty tag ks) kids inlineTags)"

subsection \<open>\<^verbatim>\<open>wrapRange\<close>\<close>

text \<open>
  The result of \<^verbatim>\<open>wrapRange\<close>: the new tree, the wrapper element as it is when the
  function returns, and the path of the wrapper, or \<open>None\<close> when
  \<^verbatim>\<open>cleanupEmptyElements\<close> has removed the wrapper from the tree.

  When the common ancestor container is a text node, the selected characters move into
  the wrapper and \<^verbatim>\<open>insertNode\<close> splits the text node at the start offset. Otherwise
  the wrapper is inserted into the common ancestor at the index where the range collapsed.
  In both cases \<^verbatim>\<open>wrapper.parentElement\<close> is the element that received the wrapper.
\<close>

record wrapped =
  newDoc :: "node list"
  wrapper :: node
  wrapperPath :: "path option"


definition wrapKids :: "node list \<Rightarrow> nat \<Rightarrow> node \<Rightarrow> path \<Rightarrow> wrapped" where
  "wrapKids rest k w parent =
     (let kids = cleanupEmptyElements (insertAt k w rest);
          w' = (case cleanupEmptyElements [w] of [] \<Rightarrow> w | x # _ \<Rightarrow> x)
      in \<lparr>newDoc = kids, wrapper = w',
          wrapperPath = (if cleanupEmptyElements [w] = [] then None
                         else Some (parent @ [length (cleanupEmptyElements (take k rest))]))\<rparr>)"

text \<open>
  The attributes of the wrapper: \<open>attrs\<close> is the list that
  \<^verbatim>\<open>Object.entries(attributes)\<close> yields, and each entry is set with
  \<^verbatim>\<open>setAttribute\<close>.
\<close>

definition setAttributes :: "(string \<times> string) list \<Rightarrow> (string \<times> string) list" where
  "setAttributes attrs = foldl (\<lambda>a kv. setAttr (toLowerCase (fst kv)) (snd kv) a) [] attrs"

text \<open>
  Everything \<^verbatim>\<open>wrapRange\<close> does before \<^verbatim>\<open>cleanupEmptyElements\<close>. It creates
  the wrapper and sets its attributes first, so a name that the DOM refuses ends the call
  before the tree is touched. Otherwise the result is the path of
  \<^verbatim>\<open>wrapper.parentElement\<close>, its child list after the extraction, the index at which
  the wrapper is inserted into that list, and the wrapper.
\<close>

definition wrapStage :: "node list \<Rightarrow> dom_range \<Rightarrow> string \<Rightarrow> (string \<times> string) list
                          \<Rightarrow> error + (path \<times> node list \<times> nat \<times> node)" where
  "wrapStage d r tagName' attrs =
     (case createElement tagName' of
        Inl e \<Rightarrow> Inl e
      | Inr el \<Rightarrow>
     if \<not> list_all (\<lambda>kv. validAttributeName (fst kv)) attrs then Inl InvalidCharacterError
     else
     (let c = commonAncestorContainer r;
          so = startOffset r; eo = endOffset r
      in (case (if c = [] then None else nodeAt d c) of
            Some (Text s) \<Rightarrow>
              (if startContainer r = c \<and> endContainer r = c \<and> so \<le> eo \<and> eo \<le> length s
               then (case kidsAt d (butlast c) of
                       None \<Rightarrow> Inl NotFoundError
                     | Some sibs \<Rightarrow>
                         (let contents = removeTagsFromFragment [Text (take (eo - so) (drop so s))] tagName';
                              w = Element (tagName el) (setAttributes attrs) contents;
                              rest = take (last c) sibs @ [Text (take so s), Text (drop eo s)] @ drop (Suc (last c)) sibs
                          in Inr (butlast c, rest, Suc (last c), w)))
               else Inl IndexSizeError)
          | _ \<Rightarrow>
              (case kidsAt d c of
                 None \<Rightarrow> Inl NotFoundError
               | Some kids \<Rightarrow>
                  (case extractContents kids (drop (length c) (startContainer r)) so
                                             (drop (length c) (endContainer r)) eo of
                     None \<Rightarrow> Inl IndexSizeError
                   | Some (fragment, rest, k) \<Rightarrow>
                       (let contents = removeTagsFromFragment fragment tagName';
                            w = Element (tagName el) (setAttributes attrs) contents
                        in Inr (c, rest, k, w)))))))"

definition wrapRange :: "node list \<Rightarrow> dom_range \<Rightarrow> string \<Rightarrow> (string \<times> string) list \<Rightarrow> error + wrapped" where
  "wrapRange d r tagName' attrs =
     (case wrapStage d r tagName' attrs of
        Inl e \<Rightarrow> Inl e
      | Inr (parent, rest, k, w) \<Rightarrow>
          (let res = wrapKids rest k w parent
           in Inr (res\<lparr>newDoc := modifyAt parent (\<lambda>_. newDoc res) d\<rparr>)))"


section \<open>Live ranges and node references across a mutation\<close>

text \<open>
  The selection's range is a live range: the DOM moves its boundary points whenever nodes
  are removed, inserted or split, and a variable that holds an element keeps denoting
  that element wherever it moves. The functions of this section give, for one call of
  \<^verbatim>\<open>wrapRange\<close>, the new place of a boundary point and of an element, following the
  DOM standard's rules for live ranges: a point inside removed content collapses to the
  place of the removal, a point behind it shifts with its container.

  \<open>trackFrom\<close> and \<open>trackUpTo\<close> handle a point inside the partially contained child at
  the start and at the end of the range, \<open>trackExtract\<close> a point below the common
  ancestor (extraction followed by the insertion of the wrapper), \<open>trackText\<close> the case
  of a range inside one text node. All paths are relative to the node in question.
\<close>

fun trackFrom :: "path \<Rightarrow> nat \<Rightarrow> path \<Rightarrow> nat \<Rightarrow> pos" where
  "trackFrom [] so [] off = ([], min off so)"
| "trackFrom [] so (m # r) off = (if m < so then (m # r, off) else ([], so))"
| "trackFrom (i # p) so [] off = ([], min off (Suc i))"
| "trackFrom (i # p) so (m # r) off =
     (if m < i then (m # r, off)
      else if m = i then (case trackFrom p so r off of (r', o') \<Rightarrow> (i # r', o'))
      else ([], Suc i))"

fun trackUpTo :: "path \<Rightarrow> nat \<Rightarrow> path \<Rightarrow> nat \<Rightarrow> pos" where
  "trackUpTo [] eo [] off = ([], off - eo)"
| "trackUpTo [] eo (m # r) off = (if m < eo then ([], 0) else ((m - eo) # r, off))"
| "trackUpTo (j # q) eo [] off = ([], off - j)"
| "trackUpTo (j # q) eo (m # r) off =
     (if m < j then ([], 0)
      else if m = j then (case trackUpTo q eo r off of (r', o') \<Rightarrow> (0 # r', o'))
      else ((m - j) # r, off))"

definition trackExtract :: "path \<Rightarrow> nat \<Rightarrow> path \<Rightarrow> nat \<Rightarrow> path \<Rightarrow> nat \<Rightarrow> pos" where
  "trackExtract sp so ep eo r off =
     (let lo = (case sp of [] \<Rightarrow> so | i # _ \<Rightarrow> Suc i);
          hi = (case ep of [] \<Rightarrow> eo | j # _ \<Rightarrow> j)
      in (case r of
            [] \<Rightarrow> ([], if off \<le> lo then off else if off \<le> hi then lo else off - (hi - lo) + 1)
          | m # r' \<Rightarrow>
              if sp \<noteq> [] \<and> m = hd sp
                then (case trackFrom (tl sp) so r' off of (r'', o'') \<Rightarrow> (m # r'', o''))
              else if m < lo then (r, off)
              else if m < hi then ([], lo)
              else if ep \<noteq> [] \<and> m = hd ep
                then (case trackUpTo (tl ep) eo r' off of (r'', o'') \<Rightarrow> (Suc lo # r'', o''))
              else ((m - (hi - lo) + 1) # r', off)))"

definition trackText :: "nat \<Rightarrow> nat \<Rightarrow> nat \<Rightarrow> path \<Rightarrow> nat \<Rightarrow> pos" where
  "trackText m0 so eo r off =
     (case r of
        [] \<Rightarrow> ([], if off \<le> m0 then off else off + 2)
      | m # r' \<Rightarrow>
          if m = m0
            then (if off \<le> so then (r, off) else if off \<le> eo then (r, so) else ((m0 + 2) # r', off - eo))
          else if m0 < m then ((m + 2) # r', off)
          else (r, off))"

text \<open>
  The same for an element. An element that has moved into the fragment is reported as
  gone: the elements followed across a call are the blocks still to be processed, which
  lie before the range or around its start, and the wrapper of the last block, which
  \<^verbatim>\<open>removeTagsFromFragment\<close> unwraps when it reaches a later fragment.
\<close>

fun trackNodeFrom :: "path \<Rightarrow> nat \<Rightarrow> path \<Rightarrow> path option" where
  "trackNodeFrom p so [] = Some []"
| "trackNodeFrom [] so (m # r) = (if m < so then Some (m # r) else None)"
| "trackNodeFrom (i # p) so (m # r) =
     (if m < i then Some (m # r)
      else if m = i then map_option ((#) i) (trackNodeFrom p so r)
      else None)"

fun trackNodeUpTo :: "path \<Rightarrow> nat \<Rightarrow> path \<Rightarrow> path option" where
  "trackNodeUpTo q eo [] = Some []"
| "trackNodeUpTo [] eo (m # r) = (if m < eo then None else Some ((m - eo) # r))"
| "trackNodeUpTo (j # q) eo (m # r) =
     (if m < j then None
      else if m = j then map_option ((#) 0) (trackNodeUpTo q eo r)
      else Some ((m - j) # r))"

definition trackNodeExtract :: "path \<Rightarrow> nat \<Rightarrow> path \<Rightarrow> nat \<Rightarrow> path \<Rightarrow> path option" where
  "trackNodeExtract sp so ep eo r =
     (let lo = (case sp of [] \<Rightarrow> so | i # _ \<Rightarrow> Suc i);
          hi = (case ep of [] \<Rightarrow> eo | j # _ \<Rightarrow> j)
      in (case r of
            [] \<Rightarrow> Some []
          | m # r' \<Rightarrow>
              if sp \<noteq> [] \<and> m = hd sp then map_option ((#) m) (trackNodeFrom (tl sp) so r')
              else if m < lo then Some r
              else if m < hi then None
              else if ep \<noteq> [] \<and> m = hd ep then map_option ((#) (Suc lo)) (trackNodeUpTo (tl ep) eo r')
              else Some ((m - (hi - lo) + 1) # r')))"

definition trackNodeText :: "nat \<Rightarrow> path \<Rightarrow> path option" where
  "trackNodeText m0 r =
     (case r of [] \<Rightarrow> Some [] | m # r' \<Rightarrow> if m0 < m then Some ((m + 2) # r') else Some r)"

text \<open>
  Across \<^verbatim>\<open>cleanupEmptyElements\<close> on the child list \<open>ns\<close>: a removed element takes
  its subtree with it, a point inside it collapses to its place, and every index drops by
  the number of removed siblings before it.
\<close>

fun cleanupTrackPos :: "node list \<Rightarrow> path \<Rightarrow> nat \<Rightarrow> pos" where
  "cleanupTrackPos ns [] off = ([], length (cleanupEmptyElements (take off ns)))"
| "cleanupTrackPos ns (m # r) off =
     (if m < length ns
      then (if cleanupEmptyElements [ns ! m] = [] then ([], length (cleanupEmptyElements (take m ns)))
            else (case ns ! m of
                    Text s \<Rightarrow> (length (cleanupEmptyElements (take m ns)) # r, off)
                  | Element t a cs \<Rightarrow>
                      (case cleanupTrackPos cs r off of
                         (r', o') \<Rightarrow> (length (cleanupEmptyElements (take m ns)) # r', o'))))
      else (m # r, off))"

fun cleanupTrackNode :: "node list \<Rightarrow> path \<Rightarrow> path option" where
  "cleanupTrackNode ns [] = Some []"
| "cleanupTrackNode ns (m # r) =
     (if m < length ns \<and> cleanupEmptyElements [ns ! m] \<noteq> []
      then map_option ((#) (length (cleanupEmptyElements (take m ns))))
             (cleanupTrackNode (childNodes (ns ! m)) r)
      else None)"

definition wrapTrackPos :: "node list \<Rightarrow> dom_range \<Rightarrow> string \<Rightarrow> (string \<times> string) list \<Rightarrow> pos \<Rightarrow> pos" where
  "wrapTrackPos d r tagName' attrs x =
     (case wrapStage d r tagName' attrs of
        Inl e \<Rightarrow> x
      | Inr (parent, rest, k, w) \<Rightarrow>
          if prefix parent (fst x)
          then (let c = commonAncestorContainer r;
                    rel = drop (length parent) (fst x);
                    y = (if parent = c
                         then trackExtract (drop (length c) (startContainer r)) (startOffset r)
                                           (drop (length c) (endContainer r)) (endOffset r) rel (snd x)
                         else trackText (last c) (startOffset r) (endOffset r) rel (snd x));
                    z = cleanupTrackPos (insertAt k w rest) (fst y) (snd y)
                in (parent @ fst z, snd z))
          else x)"

definition wrapTrackNode :: "node list \<Rightarrow> dom_range \<Rightarrow> string \<Rightarrow> (string \<times> string) list \<Rightarrow> path \<Rightarrow> path option" where
  "wrapTrackNode d r tagName' attrs q =
     (case wrapStage d r tagName' attrs of
        Inl e \<Rightarrow> Some q
      | Inr (parent, rest, k, w) \<Rightarrow>
          if prefix parent q
          then (let c = commonAncestorContainer r;
                    rel = drop (length parent) q;
                    y = (if parent = c
                         then trackNodeExtract (drop (length c) (startContainer r)) (startOffset r)
                                               (drop (length c) (endContainer r)) (endOffset r) rel
                         else trackNodeText (last c) rel)
                in (case y of
                      None \<Rightarrow> None
                    | Some r1 \<Rightarrow> map_option ((@) parent) (cleanupTrackNode (insertAt k w rest) r1)))
          else Some q)"

section \<open>Wrapping the selection block by block\<close>

text \<open>
  \<^verbatim>\<open>setStart\<close> followed by \<^verbatim>\<open>setEnd\<close> on a fresh range: an end before the
  start pulls the start back, which leaves the range collapsed.
\<close>

definition setStartEnd :: "pos \<Rightarrow> pos \<Rightarrow> dom_range" where
  "setStartEnd s e = (if cmpPos e s = Before then mkRange e e else mkRange s e)"

text \<open>
  A variable of type \<^verbatim>\<open>HTMLElement | null\<close> that holds a wrapper: null, an element
  that is no longer in the tree, or the element at a path.
\<close>

datatype wref = Null | Detached | At path

record wrapLoop =
  ldoc :: "node list"
  lsel :: selection
  firstWrapper :: wref
  lastWrapper :: wref

text \<open>
  The loop over the blocks, last block first. \<open>n\<close> is \<^verbatim>\<open>blocks.length\<close>; the list
  holds the indices still to be processed with the current path of each block, \<open>None\<close>
  for a block that an earlier iteration has taken out of the tree (its range then lies
  outside the document and the tree is not touched). \<^verbatim>\<open>range\<close> is the first range
  of the live selection.
\<close>

function wrapBlocks :: "string \<Rightarrow> (string \<times> string) list \<Rightarrow> nat \<Rightarrow> (nat \<times> path option) list
                          \<Rightarrow> wrapLoop \<Rightarrow> error + wrapLoop" where
  "wrapBlocks tagName' attrs n [] L = Inr L"
| "wrapBlocks tagName' attrs n ((i, b) # todo) L =
     (case b of
        None \<Rightarrow> wrapBlocks tagName' attrs n todo L
      | Some block \<Rightarrow>
          (let r = getRangeAt0 (lsel L);
               d = ldoc L;
               blockRange = (if i = 0 then setStartEnd (rangeStart r) (block, nodeLength d block)
                             else if i = n - 1 then setStartEnd (block, 0) (rangeEnd r)
                             else selectNodeContents d block)
           in if collapsed blockRange then wrapBlocks tagName' attrs n todo L
              else (case wrapRange d blockRange tagName' attrs of
                      Inl e \<Rightarrow> Inl e
                    | Inr res \<Rightarrow>
                        (let w = (case wrapperPath res of None \<Rightarrow> Detached | Some p \<Rightarrow> At p);
                             tn = wrapTrackNode d blockRange tagName' attrs;
                             tp = wrapTrackPos d blockRange tagName' attrs
                         in wrapBlocks tagName' attrs n
                              (map (\<lambda>jb. (fst jb, Option.bind (snd jb) tn)) todo)
                              \<lparr>ldoc = newDoc res,
                               lsel = adjustSelection tp (lsel L),
                               firstWrapper = (if i = 0 then w else firstWrapper L),
                               lastWrapper =
                                 (if i = n - 1 then w
                                  else (case lastWrapper L of
                                          At p \<Rightarrow> (case tn p of None \<Rightarrow> Detached | Some p' \<Rightarrow> At p')
                                        | x \<Rightarrow> x))\<rparr>))))"
  by pat_completeness auto
termination
  by (relation "measure (\<lambda>(t, a, n, todo, L). length todo)") auto

declare wrapBlocks.simps [simp del]

text \<open>
  The end of \<^verbatim>\<open>wrapSelectionPerBlock\<close>: with both wrappers set, the selection is
  replaced by the range from the start of the first to the end of the last.
  \<^verbatim>\<open>addRange\<close> ignores a range outside the document, and a range whose two ends
  are set in different trees collapses to the end that was set last.
\<close>

definition restoreSelection :: "node list \<Rightarrow> wref \<Rightarrow> wref \<Rightarrow> selection \<Rightarrow> selection" where
  "restoreSelection d fw lw s =
     (case fw of
        Null \<Rightarrow> s
      | _ \<Rightarrow>
         (case lw of
            Null \<Rightarrow> s
          | Detached \<Rightarrow> \<lparr>ranges = [], backward = False\<rparr>
          | At p \<Rightarrow>
             (case fw of
                At q \<Rightarrow> \<lparr>ranges = [setStartEnd (q, 0) (p, nodeLength d p)], backward = False\<rparr>
              | _ \<Rightarrow> \<lparr>ranges = [mkRange (p, nodeLength d p) (p, nodeLength d p)], backward = False\<rparr>)))"

definition wrapSelectionPerBlock :: "string \<Rightarrow> (string \<times> string) list \<Rightarrow> editor \<Rightarrow> error + editor" where
  "wrapSelectionPerBlock tagName' attrs st =
     (case sel st of
        None \<Rightarrow> Inr st
      | Some s \<Rightarrow>
          if rangeCount s = 0 then Inr st
          else (let r = getRangeAt0 s
                in if collapsed r then Inr st
                   else (let blocks = getBlocksInSelection (doc st) r
                         in if length blocks = 0 \<or> length blocks = 1
                            then (case wrapRange (doc st) r tagName' attrs of
                                    Inl e \<Rightarrow> Inl e
                                  | Inr res \<Rightarrow>
                                      (let w = (case wrapperPath res of None \<Rightarrow> Detached | Some p \<Rightarrow> At p)
                                       in Inr \<lparr>doc = newDoc res,
                                               sel = Some (restoreSelection (newDoc res) w w s)\<rparr>))
                            else (case wrapBlocks tagName' attrs (length blocks)
                                         (rev (zip [0..<length blocks] (map Some blocks)))
                                         \<lparr>ldoc = doc st, lsel = s, firstWrapper = Null, lastWrapper = Null\<rparr> of
                                    Inl e \<Rightarrow> Inl e
                                  | Inr L \<Rightarrow>
                                      Inr \<lparr>doc = ldoc L,
                                           sel = Some (restoreSelection (ldoc L) (firstWrapper L) (lastWrapper L)
                                                         (lsel L))\<rparr>))))"

section \<open>The entry points \<^verbatim>\<open>toggleElement\<close> and \<^verbatim>\<open>insertFigure\<close>\<close>

definition toggleElement :: "string \<Rightarrow> editor \<Rightarrow> error + editor" where
  "toggleElement tagName' st =
     (case sel st of
        None \<Rightarrow> Inr st
      | Some s \<Rightarrow>
          if rangeCount s = 0 then Inr st
          else (let r = getRangeAt0 s
                in if collapsed r
                   then (if isInElement tagName' st then Inr (unwrapSelection tagName' st) else Inr st)
                   else if isSelectionFullyWrapped tagName' st then Inr (unwrapSelection tagName' st)
                   else wrapSelectionPerBlock tagName' [] st))"

text \<open>
  \<^verbatim>\<open>range.insertNode(node)\<close> at a boundary point: a text node is split at the
  offset and the node goes between the halves; in an element the node becomes the child
  at the offset. The result is the new tree and the path of the inserted node.
\<close>

definition insertNode :: "node list \<Rightarrow> pos \<Rightarrow> node \<Rightarrow> error + (node list \<times> path)" where
  "insertNode d x n =
     (let c = fst x; off = snd x
      in (case (if c = [] then None else nodeAt d c) of
            Some (Text s) \<Rightarrow>
              if off \<le> length s
              then Inr (modifyAt (butlast c)
                          (\<lambda>sibs. take (last c) sibs @ [Text (take off s), n, Text (drop off s)]
                                     @ drop (Suc (last c)) sibs) d,
                        butlast c @ [Suc (last c)])
              else Inl IndexSizeError
          | _ \<Rightarrow>
              (case kidsAt d c of
                 None \<Rightarrow> Inl NotFoundError
               | Some kids \<Rightarrow>
                   if off \<le> length kids then Inr (modifyAt c (insertAt off n) d, c @ [off])
                   else Inl IndexSizeError)))"

definition insertFigure :: "string \<Rightarrow> editor \<Rightarrow> error + editor" where
  "insertFigure url st =
     (case sel st of
        None \<Rightarrow> Inr st
      | Some s \<Rightarrow>
          if rangeCount s = 0 then Inr st
          else (let r = getRangeAt0 s;
                    block = getParentBlock (doc st) (anchorNode s);
                    img = Element ''IMG'' [(''src'', url)] [];
                    caption = Element ''FIGCAPTION'' [(''contenteditable'', ''true'')] [];
                    figure = Element ''FIGURE'' [] [img, caption]
                in (case block of
                      Some bp \<Rightarrow>
                        Inr \<lparr>doc = modifyAt (butlast bp) (insertAt (Suc (last bp)) figure) (doc st),
                             sel = setSelection (mkRange (butlast bp @ [Suc (last bp), 1], 0)
                                                         (butlast bp @ [Suc (last bp), 1], 0))\<rparr>
                    | None \<Rightarrow>
                       (case insertNode (doc st) (rangeStart r) figure of
                          Inl e \<Rightarrow> Inl e
                        | Inr (d', fp) \<Rightarrow>
                            Inr \<lparr>doc = d', sel = setSelection (mkRange (fp @ [1], 0) (fp @ [1], 0))\<rparr>))))"

section \<open>Invariants of the data model\<close>






text \<open>
  Invariant I3: no inline element, at any depth, has empty text content.
\<close>

fun noEmptyInline :: "node \<Rightarrow> bool" where
  "noEmptyInline (Text s) = True"
| "noEmptyInline (Element t a cs) =
     (\<not> (t \<in> set INLINE_TAGS \<and> textContent (Element t a cs) = []) \<and> list_all noEmptyInline cs)"

text \<open>The same for the elements whose tag is in a given set.\<close>

fun noEmptyOf :: "string set \<Rightarrow> node \<Rightarrow> bool" where
  "noEmptyOf S (Text s) = True"
| "noEmptyOf S (Element t a cs) =
     (\<not> (t \<in> S \<and> textContent (Element t a cs) = []) \<and> list_all (noEmptyOf S) cs)"

section \<open>Facts about paths\<close>

lemma nodeAt_Cons:
  "nodeAt ns (i # p) = (if i < length ns then (if p = [] then Some (ns ! i) else (case ns ! i of Element t a cs \<Rightarrow> nodeAt cs p | Text s \<Rightarrow> None)) else None)"
  by (cases p) auto

lemma walkNodes_nodeAt:
  "(q, n) \<in> set (walkNodes pre i ns) \<Longrightarrow> \<exists>j r. q = pre @ (j # r) \<and> i \<le> j \<and> nodeAt ns ((j - i) # r) = Some n"
proof (induction pre i ns arbitrary: q n rule: walkNodes.induct)
  case (1 pre i)
  then show ?case by simp
next
  case (2 pre i s ns)
  from "2.prems" consider "(q, n) = (pre @ [i], Text s)" | "(q, n) \<in> set (walkNodes pre (Suc i) ns)" by auto
  then show ?case
  proof cases
    case 1
    then show ?thesis by (intro exI[of _ i] exI[of _ "[]"]) simp
  next
    case 2
    from "2.IH"[OF this] obtain j r where h: "q = pre @ j # r" "Suc i \<le> j" "nodeAt ns ((j - Suc i) # r) = Some n" by blast
    then have "nodeAt (Text s # ns) ((j - i) # r) = Some n"
      by (cases r) (auto simp: nodeAt_Cons Suc_diff_le nth_Cons' split: if_splits)
    with h show ?thesis by (intro exI[of _ j] exI[of _ r]) simp
  qed
next
  case (3 pre i t a cs ns)
  from "3.prems" consider "(q, n) = (pre @ [i], Element t a cs)" | "(q, n) \<in> set (walkNodes (pre @ [i]) 0 cs)"
    | "(q, n) \<in> set (walkNodes pre (Suc i) ns)" by auto
  then show ?case
  proof cases
    case 1
    then show ?thesis by (intro exI[of _ i] exI[of _ "[]"]) simp
  next
    case 2
    from "3.IH"(1)[OF this] obtain j r where h: "q = (pre @ [i]) @ j # r" "nodeAt cs ((j - 0) # r) = Some n" by blast
    then show ?thesis by (intro exI[of _ i] exI[of _ "j # r"]) simp
  next
    case 3
    from "3.IH"(2)[OF this] obtain j r where h: "q = pre @ j # r" "Suc i \<le> j" "nodeAt ns ((j - Suc i) # r) = Some n" by blast
    then have "nodeAt (Element t a cs # ns) ((j - i) # r) = Some n"
      by (cases r) (auto simp: nodeAt_Cons Suc_diff_le nth_Cons' split: if_splits)
    with h show ?thesis by (intro exI[of _ j] exI[of _ r]) simp
  qed
qed

lemma nodeAt_append:
  "kidsAt d p = Some kids \<Longrightarrow> q \<noteq> [] \<Longrightarrow> nodeAt d (p @ q) = nodeAt kids q"
proof (induction d p rule: kidsAt.induct)
  case (1 ns)
  then show ?case by simp
next
  case (2 ns i p)
  then show ?case by (auto simp: nodeAt_Cons split: if_splits node.splits)
qed

text \<open>
  Claim C10. Every element that \<^verbatim>\<open>getBlocksInSelection\<close> returns is an element of
  the tree whose tag is one of P, H1, H2, BLOCKQUOTE, PRE, LI. In particular it is never a
  FIGURE, although FIGURE belongs to \<^verbatim>\<open>BLOCK_TAGS\<close>: a figure that intersects the
  selection gets no wrap segment of its own in \<^verbatim>\<open>wrapSelectionPerBlock\<close>, which
  iterates over exactly this list.
\<close>

theorem getBlocksInSelection_tags:
  assumes "q \<in> set (getBlocksInSelection d r)"
  shows "\<exists>el. nodeAt d q = Some el \<and> isElement el
           \<and> tagName el \<in> {''P'', ''H1'', ''H2'', ''BLOCKQUOTE'', ''PRE'', ''LI''}
           \<and> tagName el \<noteq> ''FIGURE'' \<and> ''FIGURE'' \<in> set BLOCK_TAGS"
proof -
  define root where "root = (if isTextAt d (commonAncestorContainer r) then butlast (commonAncestorContainer r) else commonAncestorContainer r)"
  have gb0: "getBlocksInSelection d r =
      (let c = commonAncestorContainer r; root' = (if isTextAt d c then butlast c else c) in 
      (case kidsAt d root' of None \<Rightarrow> []
       | Some kids \<Rightarrow> map fst (filter (\<lambda>(q, el). isElement el \<and> tagName el \<in> set blockTags \<and> intersectsNode r q)
                              (walkNodes root' 0 kids))))"
    by (simp only: getBlocksInSelection_def)
  have gb: "getBlocksInSelection d r =
      (case kidsAt d root of None \<Rightarrow> []
       | Some kids \<Rightarrow> map fst (filter (\<lambda>(q, el). isElement el \<and> tagName el \<in> set blockTags \<and> intersectsNode r q)
                              (walkNodes root 0 kids)))"
    unfolding gb0 Let_def root_def[symmetric] by (rule refl)
  obtain kids where k: "kidsAt d root = Some kids"
    using assms gb by (cases "kidsAt d root") auto
  from assms have "q \<in> set (map fst (filter (\<lambda>(q, el). isElement el \<and> tagName el \<in> set blockTags \<and> intersectsNode r q)
                              (walkNodes root 0 kids)))"
    using k gb by simp
  then obtain el where el: "(q, el) \<in> set (walkNodes root 0 kids)" "isElement el" "tagName el \<in> set blockTags"
    by auto
  from walkNodes_nodeAt[OF el(1)] obtain j rr where q: "q = root @ (j # rr)" "nodeAt kids (j # rr) = Some el" by auto
  from nodeAt_append[OF k, of "j # rr"] q have "nodeAt d q = Some el" by simp
  moreover from el(3) have "tagName el \<in> {''P'', ''H1'', ''H2'', ''BLOCKQUOTE'', ''PRE'', ''LI''}"
    by (simp add: blockTags_def)
  moreover from this have "tagName el \<noteq> ''FIGURE''" by auto
  moreover have "''FIGURE'' \<in> set BLOCK_TAGS" by (simp add: BLOCK_TAGS_def)
  ultimately show ?thesis using el(2) by blast
qed


theorem getBlocksInSelection_tags_witness: "[1] \<in> set (getBlocksInSelection [Element ''P'' [] [Text ''first''], Element ''P'' [] [Text ''second''],
       Element ''FIGURE'' [] [Element ''IMG'' [] [], Element ''FIGCAPTION'' [] [Text ''c'']],
       Element ''P'' [] [Text ''third'']] (mkRange ([0,0],0) ([3,0],5)))
   \<and> [2] \<notin> set (getBlocksInSelection [Element ''P'' [] [Text ''first''], Element ''P'' [] [Text ''second''],
       Element ''FIGURE'' [] [Element ''IMG'' [] [], Element ''FIGCAPTION'' [] [Text ''c'']],
       Element ''P'' [] [Text ''third'']] (mkRange ([0,0],0) ([3,0],5)))
   \<and> (\<exists>el. nodeAt [Element ''P'' [] [Text ''first''], Element ''P'' [] [Text ''second''],
       Element ''FIGURE'' [] [Element ''IMG'' [] [], Element ''FIGCAPTION'' [] [Text ''c'']],
       Element ''P'' [] [Text ''third'']] [1] = Some el \<and> tagName el \<noteq> ''FIGURE'')"
proof -
  let ?d = "[Element ''P'' [] [Text ''first''], Element ''P'' [] [Text ''second''],
       Element ''FIGURE'' [] [Element ''IMG'' [] [], Element ''FIGCAPTION'' [] [Text ''c'']],
       Element ''P'' [] [Text ''third'']]"
  let ?r = "mkRange ([0,0],0) ([3,0],5)"
  have g: "getBlocksInSelection ?d ?r = [[0], [1], [3]]"
    by (simp add: getBlocksInSelection_def commonAncestorContainer_def mkRange_def isTextAt_def
        blockTags_def intersectsNode_def cmpPos_def rangeStart_def rangeEnd_def)
  have m: "[1] \<in> set (getBlocksInSelection ?d ?r)" by (simp add: g)
  from getBlocksInSelection_tags[OF m] show ?thesis using g by auto
qed

section \<open>Full coverage of a selection by one element\<close>

lemma nodeAt_snoc_Some:
  "nodeAt d (p @ [k]) = Some n \<Longrightarrow> p \<noteq> [] \<Longrightarrow> \<exists>t a cs. nodeAt d p = Some (Element t a cs) \<and> k < length cs \<and> cs ! k = n"
proof (induction p arbitrary: d)
  case Nil then show ?case by simp
next
  case (Cons i p)
  show ?case
  proof (cases "p = []")
    case True
    with Cons.prems show ?thesis by (auto simp: nodeAt_Cons split: if_splits node.splits)
  next
    case False
    with Cons.prems obtain t a cs where e: "i < length d" "d ! i = Element t a cs" "nodeAt cs (p @ [k]) = Some n"
      by (auto simp: nodeAt_Cons split: if_splits node.splits)
    from Cons.IH[OF e(3) False] e False show ?thesis by (auto simp: nodeAt_Cons)
  qed
qed

lemma nodeAt_butlast_Some:
  "nodeAt d p = Some n \<Longrightarrow> butlast p \<noteq> [] \<Longrightarrow> \<exists>t a cs. nodeAt d (butlast p) = Some (Element t a cs) \<and> last p < length cs \<and> cs ! last p = n"
  using nodeAt_snoc_Some[of d "butlast p" "last p" n] by (cases "p = []") auto


lemma prefix_butlast: "prefix p q \<Longrightarrow> p \<noteq> q \<Longrightarrow> prefix p (butlast q)"
  by (auto simp: prefix_def butlast_append)

lemma nodeAt_prefix_Some:
  "nodeAt d q = Some n \<Longrightarrow> prefix p q \<Longrightarrow> p \<noteq> [] \<Longrightarrow> \<exists>m. nodeAt d p = Some m"
proof (induction "length q - length p" arbitrary: q n)
  case 0
  then have "p = q" by (auto simp: prefix_def)
  with 0 show ?case by simp
next
  case (Suc k)
  then have neq: "p \<noteq> q" by auto
  with Suc.prems have pb: "prefix p (butlast q)" by (simp add: prefix_butlast)
  then have "butlast q \<noteq> []" using Suc.prems by auto
  from nodeAt_butlast_Some[OF Suc.prems(1) this] obtain m where "nodeAt d (butlast q) = Some m" by blast
  moreover have "k = length (butlast q) - length p" using Suc.hyps by simp
  ultimately show ?case using Suc.hyps(1)[of "butlast q" m] pb Suc.prems by blast
qed

lemma walkUp_mono:
  "prefix p q \<Longrightarrow> nodeAt d q \<noteq> None \<Longrightarrow> walkUp d p P \<noteq> None \<Longrightarrow> walkUp d q P \<noteq> None"
proof (induction d q P rule: walkUp.induct)
  case (1 d q P)
  show ?case
  proof (cases "p = q")
    case True with 1 show ?thesis by simp
  next
    case False
    from 1(4) have pne: "p \<noteq> []" by (auto simp: walkUp.simps[of d "[]"])
    with 1(2) have qne: "q \<noteq> []" by auto
    from 1(3) obtain cur where cur: "nodeAt d q = Some cur" by auto
    from False 1(2) have pb: "prefix p (butlast q)" by (simp add: prefix_butlast)
    then have "butlast q \<noteq> []" using pne by auto
    from nodeAt_butlast_Some[OF cur this] have ex: "nodeAt d (butlast q) \<noteq> None" by auto
    show ?thesis
    proof (cases "P cur")
      case True
      then show ?thesis using qne cur by (simp add: walkUp.simps[of d q])
    next
      case False
      from 1(1)[OF qne cur False pb ex 1(4)] show ?thesis
        using qne cur False by (simp add: walkUp.simps[of d q])
    qed
  qed
qed

lemma commonPrefix_between:
  "cmpPath sp so q c \<noteq> After \<Longrightarrow> cmpPath q (Suc c) ep eo \<noteq> After \<Longrightarrow> prefix (commonPrefix sp ep) q"
proof (induction sp ep arbitrary: q rule: commonPrefix.induct)
  case (1 i p j q')
  show ?case
  proof (cases "i = j")
    case True
    show ?thesis
    proof (cases q)
      case Nil
      with 1(2,3) True show ?thesis by (auto split: if_splits)
    next
      case (Cons k q'')
      with 1(2,3) True have "k = i" "cmpPath p so q'' c \<noteq> After" "cmpPath q'' (Suc c) q' eo \<noteq> After"
        by (auto split: if_splits)
      with 1(1)[OF True, of q''] Cons True show ?thesis by simp
    qed
  next
    case False then show ?thesis by simp
  qed
qed simp_all


lemma cmpPath_prefix_start: "cmpPath a 0 (a @ rest) so \<noteq> After"
proof (induction a)
  case Nil then show ?case by (cases rest) auto
qed simp

lemma cmpPath_prefix_end:
  "(rest = [] \<longrightarrow> eo \<le> L) \<Longrightarrow> (\<forall>j q. rest = j # q \<longrightarrow> j < L) \<Longrightarrow> cmpPath a L (a @ rest) eo \<noteq> Before"
proof (induction a)
  case Nil then show ?case by (cases rest) auto
qed simp

lemma child_index_bound:
  assumes "nodeAt d (a @ j # q) = Some n"
  shows "j < nodeLength d a"
proof (cases "a = []")
  case True
  with assms show ?thesis by (auto simp: nodeLength_def nodeAt_Cons split: if_splits)
next
  case False
  have "prefix (a @ [j]) (a @ j # q)" by simp
  from nodeAt_prefix_Some[OF assms this] obtain m where "nodeAt d (a @ [j]) = Some m" by auto
  from nodeAt_snoc_Some[OF this False] show ?thesis by (auto simp: nodeLength_def False)
qed

lemma ancestor_contains_range:
  assumes v: "validRange d r" and ps: "prefix p (startContainer r)" and pe: "prefix p (endContainer r)"
  shows "cmpPos (rangeStart (selectNodeContents d p)) (rangeStart r) \<noteq> After"
    and "cmpPos (rangeEnd (selectNodeContents d p)) (rangeEnd r) \<noteq> Before"
proof -
  from ps obtain rs where rs: "startContainer r = p @ rs" by (auto simp: prefix_def)
  from pe obtain re where re: "endContainer r = p @ re" by (auto simp: prefix_def)
  show "cmpPos (rangeStart (selectNodeContents d p)) (rangeStart r) \<noteq> After"
    using cmpPath_prefix_start[of p rs "startOffset r"]
    by (simp add: cmpPos_def rangeStart_def selectNodeContents_def mkRange_def rs)
  have a: "re = [] \<longrightarrow> endOffset r \<le> nodeLength d p"
    using v re by (auto simp: validRange_def validPos_def rangeEnd_def)
  have b: "\<forall>j q. re = j # q \<longrightarrow> j < nodeLength d p"
  proof (intro allI impI)
    fix j q assume "re = j # q"
    with v re obtain n where "nodeAt d (p @ j # q) = Some n"
      by (auto simp: validRange_def validPos_def rangeEnd_def)
    then show "j < nodeLength d p" by (rule child_index_bound)
  qed
  show "cmpPos (rangeEnd (selectNodeContents d p)) (rangeEnd r) \<noteq> Before"
    using cmpPath_prefix_end[OF a b, of p]
    by (simp add: cmpPos_def rangeEnd_def selectNodeContents_def mkRange_def re)
qed

lemma fullyWrappedFrom_walkUp:
  "validRange d r \<Longrightarrow> prefix p (startContainer r) \<Longrightarrow> prefix p (endContainer r) \<Longrightarrow>
   fullyWrappedFrom d r T p = (walkUp d p (\<lambda>n. isElement n \<and> tagName n = T) \<noteq> None)"
proof (induction d r T p rule: fullyWrappedFrom.induct)
  case (1 d r T p)
  show ?case
  proof (cases "p = []")
    case True
    then show ?thesis by (simp add: walkUp.simps[of d "[]"] fullyWrappedFrom.simps[of d r T "[]"])
  next
    case False
    show ?thesis
    proof (cases "nodeAt d p")
      case None
      with False show ?thesis by (simp add: walkUp.simps[of d p] fullyWrappedFrom.simps[of d r T p])
    next
      case (Some n)
      note c = ancestor_contains_range[OF 1(2,3,4)]
      show ?thesis
      proof (cases "isElement n \<and> tagName n = T")
        case True
        with False Some c show ?thesis
          by (simp add: walkUp.simps[of d p] fullyWrappedFrom.simps[of d r T p] Let_def)
      next
        case nt: False
        have pb: "prefix (butlast p) (startContainer r)" "prefix (butlast p) (endContainer r)"
          using 1(3,4) by (meson prefix_order.trans prefixeq_butlast)+
        from nt have "\<not> (isElement n \<and> tagName n = T \<and>
                 (let elRange = selectNodeContents d p;
                      startsInside = cmpPos (rangeStart elRange) (rangeStart r) \<noteq> After;
                      endsInside = cmpPos (rangeEnd elRange) (rangeEnd r) \<noteq> Before
                  in startsInside \<and> endsInside))" by auto
        from 1(1)[OF False Some this 1(2) pb] nt False Some show ?thesis
          by (auto simp: walkUp.simps[of d p] fullyWrappedFrom.simps[of d r T p] Let_def)
      qed
    qed
  qed
qed

lemma walkUp_iff:
  "p = [] \<or> nodeAt d p \<noteq> None \<Longrightarrow>
   (walkUp d p P \<noteq> None) = (\<exists>a n. a \<noteq> [] \<and> prefix a p \<and> nodeAt d a = Some n \<and> P n)"
proof (induction d p P rule: walkUp.induct)
  case (1 d p P)
  show ?case
  proof (cases "p = []")
    case True then show ?thesis by (simp add: walkUp.simps[of d "[]"])
  next
    case False
    with 1(2) obtain cur where cur: "nodeAt d p = Some cur" by auto
    show ?thesis
    proof (cases "P cur")
      case True
      with False cur show ?thesis by (auto simp: walkUp.simps[of d p] intro!: exI[of _ p])
    next
      case nP: False
      have ex: "butlast p = [] \<or> nodeAt d (butlast p) \<noteq> None"
        using nodeAt_butlast_Some[OF cur] by auto
      have "(\<exists>a n. a \<noteq> [] \<and> prefix a p \<and> nodeAt d a = Some n \<and> P n)
          = (\<exists>a n. a \<noteq> [] \<and> prefix a (butlast p) \<and> nodeAt d a = Some n \<and> P n)"
      proof
        assume "\<exists>a n. a \<noteq> [] \<and> prefix a p \<and> nodeAt d a = Some n \<and> P n"
        then obtain a n where h: "a \<noteq> []" "prefix a p" "nodeAt d a = Some n" "P n" by blast
        with nP cur have "a \<noteq> p" by auto
        with h show "\<exists>a n. a \<noteq> [] \<and> prefix a (butlast p) \<and> nodeAt d a = Some n \<and> P n"
          using prefix_butlast by blast
      next
        assume "\<exists>a n. a \<noteq> [] \<and> prefix a (butlast p) \<and> nodeAt d a = Some n \<and> P n"
        then show "\<exists>a n. a \<noteq> [] \<and> prefix a p \<and> nodeAt d a = Some n \<and> P n"
          by (meson prefix_order.trans prefixeq_butlast)
      qed
      with 1(1)[OF False cur nP ex] False cur nP show ?thesis by (simp add: walkUp.simps[of d p])
    qed
  qed
qed


lemma commonPrefix_prefix: "prefix (commonPrefix p q) p \<and> prefix (commonPrefix p q) q"
  by (induction p q rule: commonPrefix.induct) auto

lemma walkNodes_root_nodeAt: "(q, n) \<in> set (walkNodes [] 0 d) \<Longrightarrow> nodeAt d q = Some n"
  using walkNodes_nodeAt[of q n "[]" 0 d] by auto

text \<open>
  Claim C2, as amended. For a valid selection range, \<open>isSelectionFullyWrapped\<close> answers
  true exactly when one single element of the tag, below \<^verbatim>\<open>editorContent\<close>, is the
  range's common ancestor container or an ancestor of it; the closed-interval boundary test
  of the source never excludes such an element. When the answer is true, every text node
  with a selected character has an ancestor of the tag. The converse fails (see the
  counterexample): a selection covered by two adjacent elements of the tag is not reported
  as fully wrapped.
\<close>

theorem isSelectionFullyWrapped_single_ancestor:
  assumes s: "sel st = Some s" and rs: "ranges s = r # rs" and v: "validRange (doc st) r"
  shows "(isSelectionFullyWrapped tag st \<longleftrightarrow>
            (\<exists>a n. a \<noteq> [] \<and> prefix a (commonAncestorContainer r) \<and> nodeAt (doc st) a = Some n
                 \<and> isElement n \<and> tagName n = toUpperCase tag))
       \<and> (isSelectionFullyWrapped tag st \<longrightarrow> allSelectedTextWrapped tag st)"
proof -
  define d where "d = doc st"
  define c where "c = commonAncestorContainer r"
  define c' where "c' = (if isTextAt d c then butlast c else c)"
  define P where "P = (\<lambda>n. isElement n \<and> tagName n = toUpperCase tag)"
  have unf: "isSelectionFullyWrapped tag st = fullyWrappedFrom d r (toUpperCase tag) c'"
    using s rs by (simp add: isSelectionFullyWrapped_def rangeCount_def getRangeAt0_def Let_def d_def c_def c'_def)
  have pc: "prefix c (startContainer r)" "prefix c (endContainer r)"
    using commonPrefix_prefix by (simp_all add: c_def commonAncestorContainer_def)
  have pc': "prefix c' c" by (simp add: c'_def prefixeq_butlast)
  then have pc2: "prefix c' (startContainer r)" "prefix c' (endContainer r)"
    using pc by auto
  have exS: "startContainer r = [] \<or> nodeAt d (startContainer r) \<noteq> None"
    using v by (auto simp: validRange_def validPos_def rangeStart_def d_def)
  have exc': "c' = [] \<or> nodeAt d c' \<noteq> None"
    using exS pc2(1) nodeAt_prefix_Some[of d "startContainer r" _ c'] by auto
  have w: "fullyWrappedFrom d r (toUpperCase tag) c' = (walkUp d c' P \<noteq> None)"
    unfolding P_def using fullyWrappedFrom_walkUp[of d r c' "toUpperCase tag"] v pc2 by (simp add: d_def)
  have iff1: "(walkUp d c' P \<noteq> None) = (\<exists>a n. a \<noteq> [] \<and> prefix a c' \<and> nodeAt d a = Some n \<and> P n)"
    by (rule walkUp_iff[OF exc'])
  have iff2: "(\<exists>a n. a \<noteq> [] \<and> prefix a c' \<and> nodeAt d a = Some n \<and> P n)
            = (\<exists>a n. a \<noteq> [] \<and> prefix a c \<and> nodeAt d a = Some n \<and> P n)"
  proof
    assume "\<exists>a n. a \<noteq> [] \<and> prefix a c' \<and> nodeAt d a = Some n \<and> P n"
    then show "\<exists>a n. a \<noteq> [] \<and> prefix a c \<and> nodeAt d a = Some n \<and> P n"
      using pc' by (meson prefix_order.trans)
  next
    assume "\<exists>a n. a \<noteq> [] \<and> prefix a c \<and> nodeAt d a = Some n \<and> P n"
    then obtain a n where h: "a \<noteq> []" "prefix a c" "nodeAt d a = Some n" "P n" by blast
    have "prefix a c'"
    proof (cases "isTextAt d c")
      case True
      with h have "a \<noteq> c" by (auto simp: isTextAt_def P_def split: option.splits node.splits)
      with h True show ?thesis by (simp add: c'_def prefix_butlast)
    next
      case False with h show ?thesis by (simp add: c'_def)
    qed
    with h show "\<exists>a n. a \<noteq> [] \<and> prefix a c' \<and> nodeAt d a = Some n \<and> P n" by blast
  qed
  have part1: "isSelectionFullyWrapped tag st \<longleftrightarrow>
            (\<exists>a n. a \<noteq> [] \<and> prefix a (commonAncestorContainer r) \<and> nodeAt (doc st) a = Some n
                 \<and> isElement n \<and> tagName n = toUpperCase tag)"
    using unf w iff1 iff2 by (simp add: P_def c_def d_def)
  have part2: "allSelectedTextWrapped tag st" if fw: "isSelectionFullyWrapped tag st"
  proof -
    from fw unf w have wu: "walkUp d c' P \<noteq> None" by simp
    have "findAncestor d q tag \<noteq> None" if q: "q \<in> set (selectedTextNodes d r)" for q
    proof -
      from q obtain n k where n: "(q, n) \<in> set (walkNodes [] 0 d)"
        and k: "cmpPos (rangeStart r) (q, k) \<noteq> After" "cmpPos (q, Suc k) (rangeEnd r) \<noteq> After"
        by (auto simp: selectedTextNodes_def)
      from n have ex: "nodeAt d q \<noteq> None" using walkNodes_root_nodeAt by auto
      from k have "prefix c q"
        using commonPrefix_between[of "startContainer r" "startOffset r" q k "endContainer r" "endOffset r"]
        by (simp add: cmpPos_def rangeStart_def rangeEnd_def c_def commonAncestorContainer_def)
      with pc' have "prefix c' q" by auto
      from walkUp_mono[OF this ex wu] show ?thesis
        by (simp add: findAncestor_def isElementWithTag_def P_def)
    qed
    then show ?thesis using s rs by (simp add: allSelectedTextWrapped_def list_all_iff d_def)
  qed
  from part1 part2 show ?thesis by blast
qed

text \<open>
  Claim C2 as stated fails: in \<^verbatim>\<open><p><strong>a</strong><strong>b</strong></p>\<close>
  with both letters selected, every selected text position has a STRONG ancestor, yet
  \<open>isSelectionFullyWrapped\<close> is false, because no single STRONG holds both ends.
\<close>

theorem isSelectionFullyWrapped_counterexample:
  "\<not> (isSelectionFullyWrapped ''strong''
          \<lparr>doc = [Element ''P'' [] [Element ''STRONG'' [] [Text ''a''], Element ''STRONG'' [] [Text ''b'']]],
           sel = setSelection (mkRange ([0, 0, 0], 0) ([0, 1, 0], 1))\<rparr>
      \<longleftrightarrow> allSelectedTextWrapped ''strong''
          \<lparr>doc = [Element ''P'' [] [Element ''STRONG'' [] [Text ''a''], Element ''STRONG'' [] [Text ''b'']]],
           sel = setSelection (mkRange ([0, 0, 0], 0) ([0, 1, 0], 1))\<rparr>)"
proof -
  have a: "\<not> isSelectionFullyWrapped ''strong''
          \<lparr>doc = [Element ''P'' [] [Element ''STRONG'' [] [Text ''a''], Element ''STRONG'' [] [Text ''b'']]],
           sel = setSelection (mkRange ([0, 0, 0], 0) ([0, 1, 0], 1))\<rparr>"
    by (simp add: isSelectionFullyWrapped_def setSelection_def rangeCount_def getRangeAt0_def mkRange_def
        commonAncestorContainer_def isTextAt_def fullyWrappedFrom.simps toUpperCase_def upperChar_def)
  have b: "allSelectedTextWrapped ''strong''
          \<lparr>doc = [Element ''P'' [] [Element ''STRONG'' [] [Text ''a''], Element ''STRONG'' [] [Text ''b'']]],
           sel = setSelection (mkRange ([0, 0, 0], 0) ([0, 1, 0], 1))\<rparr>"
    by (simp add: allSelectedTextWrapped_def setSelection_def mkRange_def selectedTextNodes_def
        cmpPos_def rangeStart_def rangeEnd_def findAncestor_def isElementWithTag_def walkUp.simps
        toUpperCase_def upperChar_def)
  from a b show ?thesis by simp
qed

theorem isSelectionFullyWrapped_single_ancestor_witness:
  "validRange [Element ''P'' [] [Text ''hello '', Element ''STRONG'' [] [Text ''world'']]] (mkRange ([0, 1, 0], 0) ([0, 1, 0], 3))
   \<and> isSelectionFullyWrapped ''strong''
        \<lparr>doc = [Element ''P'' [] [Text ''hello '', Element ''STRONG'' [] [Text ''world'']]],
         sel = setSelection (mkRange ([0, 1, 0], 0) ([0, 1, 0], 3))\<rparr>
   \<and> allSelectedTextWrapped ''strong''
        \<lparr>doc = [Element ''P'' [] [Text ''hello '', Element ''STRONG'' [] [Text ''world'']]],
         sel = setSelection (mkRange ([0, 1, 0], 0) ([0, 1, 0], 3))\<rparr>"
proof -
  let ?d = "[Element ''P'' [] [Text ''hello '', Element ''STRONG'' [] [Text ''world'']]]"
  let ?r = "mkRange ([0, 1, 0], 0) ([0, 1, 0], 3)"
  let ?st = "\<lparr>doc = ?d, sel = setSelection ?r\<rparr>"
  have v: "validRange (doc ?st) ?r"
    by (simp add: validRange_def validPos_def rangeStart_def rangeEnd_def mkRange_def nodeLength_def cmpPos_def)
  have s: "sel ?st = Some \<lparr>ranges = [?r], backward = False\<rparr>" by (simp add: setSelection_def)
  have r: "ranges \<lparr>ranges = [?r], backward = False\<rparr> = ?r # []" by simp
  note t = isSelectionFullyWrapped_single_ancestor[OF s r v, of "''strong''"]
  have "\<exists>a n. a \<noteq> [] \<and> prefix a (commonAncestorContainer ?r) \<and> nodeAt (doc ?st) a = Some n
                 \<and> isElement n \<and> tagName n = toUpperCase ''strong''"
    by (rule exI[of _ "[0, 1]"], rule exI[of _ "Element ''STRONG'' [] [Text ''world'']"])
       (simp add: commonAncestorContainer_def mkRange_def toUpperCase_def upperChar_def)
  with t have "isSelectionFullyWrapped ''strong'' ?st \<and> allSelectedTextWrapped ''strong'' ?st" by blast
  with v show ?thesis by simp
qed

section \<open>Extracting a list item\<close>


lemma kidsAt_nodeAt:
  "q \<noteq> [] \<Longrightarrow> kidsAt d q = (case nodeAt d q of Some (Element t a cs) \<Rightarrow> Some cs | _ \<Rightarrow> None)"
proof (induction d q rule: kidsAt.induct)
  case (1 ns) then show ?case by simp
next
  case (2 ns i p)
  show ?case
  proof (cases "p = []")
    case True then show ?thesis by (auto split: node.splits)
  next
    case False
    with 2 show ?thesis by (auto simp: nodeAt_Cons split: node.splits)
  qed
qed

lemma nodeAt_parent_kids:
  assumes "nodeAt d p = Some n"
  shows "\<exists>sibs. kidsAt d (butlast p) = Some sibs \<and> last p < length sibs \<and> sibs ! last p = n"
proof (cases "butlast p = []")
  case True
  from assms have "p \<noteq> []" by auto
  with True obtain i where "p = [i]" by (cases p) (auto split: if_splits)
  with assms show ?thesis by (auto split: if_splits)
next
  case False
  from nodeAt_butlast_Some[OF assms False] show ?thesis by (auto simp: kidsAt_nodeAt[OF False])
qed

lemma kidsAt_modifyAt: "kidsAt d p = Some ks \<Longrightarrow> kidsAt (modifyAt p f d) p = Some (f ks)"
proof (induction d p rule: kidsAt.induct)
  case (1 ns) then show ?case by simp
next
  case (2 ns i p)
  then show ?case by (auto split: if_splits node.splits)
qed

lemma children_append: "children (xs @ ys) = children xs @ children ys"
  by (simp add: children_def)

lemma children_split:
  "k < length cs \<Longrightarrow> isElement (cs ! k) \<Longrightarrow>
   children cs = children (take k cs) @ [cs ! k] @ children (drop (Suc k) cs)"
proof -
  assume a: "k < length cs" "isElement (cs ! k)"
  then have "cs = take k cs @ [cs ! k] @ drop (Suc k) cs" by (simp add: id_take_nth_drop)
  then have "children cs = children (take k cs @ [cs ! k] @ drop (Suc k) cs)" by simp
  also have "\<dots> = children (take k cs) @ [cs ! k] @ children (drop (Suc k) cs)"
    using a by (simp add: children_def)
  finally show ?thesis .
qed

text \<open>
  Claim C3. The selection's nearest block is a list item (an LI whose parent is a UL or OL
  below \<^verbatim>\<open>editorContent\<close>) and the requested tag is not the list-item tag. Then
  \<open>setBlockType\<close> rewrites only the child list of the list's parent: in place of the list
  stand the lists \<open>before\<close>, one new block of the requested tag carrying the item's inner
  content (as the round trip through \<^verbatim>\<open>innerHTML\<close> yields it), and the lists
  \<open>after\<close>. There are no lists for a list of one item, one list
  when the item is the first or the last, two lists otherwise; each has the tag of the
  original list, and their items, read in order, are the original items without the
  extracted one, so they are N - 1 in number. This is so for every tag that
  \<^verbatim>\<open>document.createElement\<close> accepts as a name; for any other string the call
  ends with \<^verbatim>\<open>InvalidCharacterError\<close>.
\<close>

theorem setBlockType_list_item_extraction:
  assumes s: "sel st = Some s" "ranges s \<noteq> []"
    and bp: "getParentBlock (doc st) (anchorNode s) = Some bp"
    and item: "nodeAt (doc st) bp = Some (Element ''LI'' ia ics)"
    and lp: "butlast bp \<noteq> []" "nodeAt (doc st) (butlast bp) = Some (Element lt la lcs)" "lt = ''UL'' \<or> lt = ''OL''"
    and tag: "toLowerCase tag \<noteq> ''li''"
  shows "(\<not> validElementName tag \<longrightarrow> setBlockType rt tag st = Inl InvalidCharacterError)
    \<and> (validElementName tag \<longrightarrow> (\<exists>sibs before after st'.
      kidsAt (doc st) (butlast (butlast bp)) = Some sibs
      \<and> setBlockType rt tag st = Inr st'
      \<and> doc st' =
          modifyAt (butlast (butlast bp))
            (\<lambda>_. take (last (butlast bp)) sibs @ before
                  @ [Element (toUpperCase tag) [] (rt (toUpperCase tag) ics)] @ after
                  @ drop (Suc (last (butlast bp))) sibs) (doc st)
      \<and> (\<forall>l \<in> set (before @ after). isElement l \<and> tagName l = lt)
      \<and> length (before @ after) =
           (if length (children lcs) = 1 then 0
            else if length (children (take (last bp) lcs)) = 0
                    \<or> length (children (take (last bp) lcs)) = length (children lcs) - 1 then 1
            else 2)
      \<and> concat (map (\<lambda>l. children (childNodes l)) (before @ after)) = children (removeAt (last bp) lcs)
      \<and> length (children (removeAt (last bp) lcs)) = length (children lcs) - 1))"
proof -
  define d where "d = doc st"
  define k where "k = last bp"
  define li where "li = last (butlast bp)"
  define newBlock where "newBlock = Element (toUpperCase tag) [] (rt (toUpperCase tag) ics)"
  from nodeAt_parent_kids[OF lp(2)] obtain sibs where sibs:
    "kidsAt d (butlast (butlast bp)) = Some sibs" "li < length sibs" "sibs ! li = Element lt la lcs"
    by (auto simp: d_def li_def)
  from nodeAt_butlast_Some[OF item lp(1)] lp(2) have kk: "k < length lcs" "lcs ! k = Element ''LI'' ia ics"
    by (auto simp: k_def)
  have isl: "isListElementAt d (butlast bp)"
    using lp by (auto simp: isListElementAt_def d_def)
  have ne: "toLowerCase (tagName (Element ''LI'' ia ics)) \<noteq> toLowerCase tag"
    using tag by (simp add: toLowerCase_def lowerChar_def)
  have inv: "setBlockType rt tag st = Inl InvalidCharacterError" if "\<not> validElementName tag"
    using that s bp item ne
    by (simp add: setBlockType_def rangeCount_def createElement_def d_def[symmetric])
  have unf: "\<exists>st'. setBlockType rt tag st = Inr st'
      \<and> doc st' = modifyAt (butlast (butlast bp)) (\<lambda>_. fst (extractListItem newBlock sibs li k)) d"
    if "validElementName tag"
    using that s bp item isl ne sibs(1)
    by (simp add: setBlockType_def rangeCount_def createElement_def Let_def d_def[symmetric] newBlock_def li_def k_def)
  have split: "children lcs = children (take k lcs) @ [lcs ! k] @ children (drop (Suc k) lcs)"
    using children_split[OF kk(1)] kk(2) by simp
  have rem: "children (removeAt k lcs) = children (take k lcs) @ children (drop (Suc k) lcs)"
    by (simp add: removeAt_def children_append)
  have len: "length (children (removeAt k lcs)) = length (children lcs) - 1"
    using split rem by simp
  let ?N = "length (children lcs)"
  let ?idx = "length (children (take k lcs))"
  have ex: "\<exists>before after. fst (extractListItem newBlock sibs li k) = take li sibs @ before @ [newBlock] @ after @ drop (Suc li) sibs
      \<and> (\<forall>l \<in> set (before @ after). isElement l \<and> tagName l = lt)
      \<and> length (before @ after) = (if ?N = 1 then 0 else if ?idx = 0 \<or> ?idx = ?N - 1 then 1 else 2)
      \<and> concat (map (\<lambda>l. children (childNodes l)) (before @ after)) = children (removeAt k lcs)"
  proof (cases "?N = 1")
    case True
    with split have e: "children (take k lcs) = []" "children (drop (Suc k) lcs) = []" by auto
    have "fst (extractListItem newBlock sibs li k) = take li sibs @ [] @ [newBlock] @ [] @ drop (Suc li) sibs"
      using True sibs by (simp add: extractListItem_def upd_conv_take_nth_drop)
    then show ?thesis using True e rem by (intro exI[of _ "[]"]) simp
  next
    case N: False
    show ?thesis
    proof (cases "?idx = 0")
      case True
      have "fst (extractListItem newBlock sibs li k) = take li sibs @ [] @ [newBlock] @ [Element lt la (removeAt k lcs)] @ drop (Suc li) sibs"
        using True N sibs by (simp add: extractListItem_def)
      then show ?thesis using True N
        by (intro exI[of _ "[]"] exI[of _ "[Element lt la (removeAt k lcs)]"]) simp
    next
      case i0: False
      show ?thesis
      proof (cases "?idx = ?N - 1")
        case True
        have "fst (extractListItem newBlock sibs li k) = take li sibs @ [Element lt la (removeAt k lcs)] @ [newBlock] @ [] @ drop (Suc li) sibs"
          using True N i0 sibs by (simp add: extractListItem_def)
        then show ?thesis using True N i0
          by (intro exI[of _ "[Element lt la (removeAt k lcs)]"] exI[of _ "[]"]) simp
      next
        case False
        have "fst (extractListItem newBlock sibs li k) = take li sibs @ [Element lt la (take k lcs)] @ [newBlock] @ [Element lt [] (drop (Suc k) lcs)] @ drop (Suc li) sibs"
          using False N i0 sibs by (simp add: extractListItem_def)
        then show ?thesis using False N i0 rem
          by (intro exI[of _ "[Element lt la (take k lcs)]"] exI[of _ "[Element lt [] (drop (Suc k) lcs)]"]) simp
      qed
    qed
  qed
  then obtain before after where ba:
    "fst (extractListItem newBlock sibs li k) = take li sibs @ before @ [newBlock] @ after @ drop (Suc li) sibs"
    "\<forall>l \<in> set (before @ after). isElement l \<and> tagName l = lt"
    "length (before @ after) = (if ?N = 1 then 0 else if ?idx = 0 \<or> ?idx = ?N - 1 then 1 else 2)"
    "concat (map (\<lambda>l. children (childNodes l)) (before @ after)) = children (removeAt k lcs)"
    by blast
  show ?thesis
  proof (intro conjI impI)
    assume "\<not> validElementName tag"
    then show "setBlockType rt tag st = Inl InvalidCharacterError" by (rule inv)
  next
    assume "validElementName tag"
    from unf[OF this] obtain st' where st': "setBlockType rt tag st = Inr st'"
      "doc st' = modifyAt (butlast (butlast bp)) (\<lambda>_. fst (extractListItem newBlock sibs li k)) d" by blast
    from sibs(1) st' ba len
    show "\<exists>sibs before after st'.
      kidsAt (doc st) (butlast (butlast bp)) = Some sibs
      \<and> setBlockType rt tag st = Inr st'
      \<and> doc st' =
          modifyAt (butlast (butlast bp))
            (\<lambda>_. take (last (butlast bp)) sibs @ before
                  @ [Element (toUpperCase tag) [] (rt (toUpperCase tag) ics)] @ after
                  @ drop (Suc (last (butlast bp))) sibs) (doc st)
      \<and> (\<forall>l \<in> set (before @ after). isElement l \<and> tagName l = lt)
      \<and> length (before @ after) =
           (if length (children lcs) = 1 then 0
            else if length (children (take (last bp) lcs)) = 0
                    \<or> length (children (take (last bp) lcs)) = length (children lcs) - 1 then 1
            else 2)
      \<and> concat (map (\<lambda>l. children (childNodes l)) (before @ after)) = children (removeAt (last bp) lcs)
      \<and> length (children (removeAt (last bp) lcs)) = length (children lcs) - 1"
      by (intro exI[of _ sibs] exI[of _ before] exI[of _ after] exI[of _ st'])
         (simp add: d_def k_def li_def newBlock_def)
  qed
qed

theorem setBlockType_list_item_extraction_witness:
  "\<exists>sibs before after st'.
      kidsAt [Element ''UL'' [] [Element ''LI'' [] [Text ''item one''], Element ''LI'' [] [Text ''item two''],
                                 Element ''LI'' [] [Text ''item three'']]] [] = Some sibs
      \<and> setBlockType reparse ''p''
            \<lparr>doc = [Element ''UL'' [] [Element ''LI'' [] [Text ''item one''], Element ''LI'' [] [Text ''item two''],
                                       Element ''LI'' [] [Text ''item three'']]],
             sel = setSelection (mkRange ([0, 1, 0], 0) ([0, 1, 0], 8))\<rparr> = Inr st'
      \<and> doc st' =
          modifyAt [] (\<lambda>_. take 0 sibs @ before @ [Element ''P'' [] [Text ''item two'']] @ after @ drop (Suc 0) sibs)
            [Element ''UL'' [] [Element ''LI'' [] [Text ''item one''], Element ''LI'' [] [Text ''item two''],
                                Element ''LI'' [] [Text ''item three'']]]
      \<and> (\<forall>l \<in> set (before @ after). isElement l \<and> tagName l = ''UL'')
      \<and> length (before @ after) = 2
      \<and> concat (map (\<lambda>l. children (childNodes l)) (before @ after)) =
            [Element ''LI'' [] [Text ''item one''], Element ''LI'' [] [Text ''item three'']]"
proof -
  let ?lcs = "[Element ''LI'' [] [Text ''item one''], Element ''LI'' [] [Text ''item two''],
               Element ''LI'' [] [Text ''item three'']]"
  let ?d = "[Element ''UL'' [] ?lcs]"
  let ?s = "\<lparr>ranges = [mkRange ([0, 1, 0], 0) ([0, 1, 0], 8)], backward = False\<rparr>"
  let ?st = "\<lparr>doc = ?d, sel = setSelection (mkRange ([0, 1, 0], 0) ([0, 1, 0], 8))\<rparr>"
  have h1: "sel ?st = Some ?s" by (simp add: setSelection_def)
  have h2: "ranges ?s \<noteq> []" by simp
  have h3: "getParentBlock (doc ?st) (anchorNode ?s) = Some [0, 1]"
    by (simp add: getParentBlock_def findParentBlock_def anchorNode_def getRangeAt0_def mkRange_def
        walkUp.simps BLOCK_TAGS_def)
  have h4: "nodeAt (doc ?st) [0, 1] = Some (Element ''LI'' [] [Text ''item two''])" by simp
  have h5: "butlast [0, 1::nat] \<noteq> []" by simp
  have h6: "nodeAt (doc ?st) (butlast [0, 1]) = Some (Element ''UL'' [] ?lcs)" by simp
  have h7: "''UL'' = ''UL'' \<or> ''UL'' = ''OL''" by simp
  have h8: "toLowerCase ''p'' \<noteq> ''li''" by (simp add: toLowerCase_def lowerChar_def)
  have h9: "validElementName ''p''" by (simp add: validElementName_def asciiAlpha_def asciiWhitespace_def)
  have h10: "reparse ''P'' [Text ''item two''] = [Text ''item two'']"
    by (simp add: reparse_def parsedText_def)
  from setBlockType_list_item_extraction[OF h1 h2 h3 h4 h5 h6 h7 h8, of reparse] h9 h10
  show ?thesis by (simp add: toUpperCase_def upperChar_def removeAt_def children_def)
qed

text \<open>
  Claim C4, evaluated on a two-item unordered list with the selection in the first item:
  the list becomes an ordered list with its items untouched, but the selection is placed
  at the end of the second (the last) item, not of the first. When the source computes
  \<^verbatim>\<open>Array.from(listEl.children).indexOf(block)\<close>, the children of
  \<^verbatim>\<open>listEl\<close> have already moved to the new list, so the index is -1 and the
  fallback \<^verbatim>\<open>newList.lastElementChild\<close> is taken.
\<close>

theorem toggleList_convert_selects_last_item:
  "toggleList rt ol
     \<lparr>doc = [Element ''UL'' [] [Element ''LI'' [] [Text ''item one''], Element ''LI'' [] [Text ''item two'']]],
      sel = setSelection (mkRange ([0, 0, 0], 0) ([0, 0, 0], 4))\<rparr>
   = Inr \<lparr>doc = [Element ''OL'' [] [Element ''LI'' [] [Text ''item one''], Element ''LI'' [] [Text ''item two'']]],
          sel = setSelection (mkRange ([0, 1], 1) ([0, 1], 1))\<rparr>"
  by (simp add: toggleList_def setSelection_def rangeCount_def getParentBlock_def findParentBlock_def
      anchorNode_def getRangeAt0_def mkRange_def walkUp.simps BLOCK_TAGS_def toLowerCase_def lowerChar_def
      toUpperCase_def upperChar_def Let_def modifyNode_def at_def childrenIndices_def lastElementChild_def
      collapsedAtEnd_def)

section \<open>Wrapping never nests the tag\<close>


lemma moveChildrenOut_eq:
  "k < length sibs \<Longrightarrow> sibs ! k = Element t a cs \<Longrightarrow>
   moveChildrenOut sibs k = (take k sibs @ cs @ [Element t a []] @ drop (Suc k) sibs, k + length cs)"
proof (induction cs arbitrary: sibs k)
  case Nil
  then show ?case using id_take_nth_drop[of k sibs] by (simp add: moveChildrenOut.simps[of sibs k])
next
  case (Cons c cs)
  let ?sibs' = "take k sibs @ [c, Element t a cs] @ drop (Suc k) sibs"
  have 1: "Suc k < length ?sibs'" using Cons.prems by simp
  have 2: "?sibs' ! Suc k = Element t a cs" using Cons.prems by (simp add: nth_append)
  have 3: "take (Suc k) ?sibs' = take k sibs @ [c]" using Cons.prems by simp
  have 4: "drop (Suc (Suc k)) ?sibs' = drop (Suc k) sibs" using Cons.prems by simp
  have "moveChildrenOut sibs k = moveChildrenOut ?sibs' (Suc k)"
    using Cons.prems by (subst moveChildrenOut.simps) simp
  also have "\<dots> = (take (Suc k) ?sibs' @ cs @ [Element t a []] @ drop (Suc (Suc k)) ?sibs', Suc k + length cs)"
    by (rule Cons.IH[OF 1 2])
  finally show ?case unfolding 3 4 by simp
qed

lemma moveChildrenOut_Text:
  "k < length sibs \<Longrightarrow> sibs ! k = Text s \<Longrightarrow> moveChildrenOut sibs k = (sibs, k)"
  by (simp add: moveChildrenOut.simps[of sibs k])

lemma unwrapElement_single:
  "i < length ns \<Longrightarrow> ns ! i = Element t a cs \<Longrightarrow> unwrapElement [i] ns = take i ns @ cs @ drop (Suc i) ns"
  by (simp add: unwrapElement_def moveChildrenOut_eq removeAt_def)

lemma unwrapElement_Cons:
  "q \<noteq> [] \<Longrightarrow> i < length ns \<Longrightarrow> ns ! i = Element t a cs \<Longrightarrow>
   unwrapElement (i # q) ns = ns[i := Element t a (unwrapElement q cs)]"
  by (simp add: unwrapElement_def)


lemma bump_Nil_iff: "bump x = [] \<longleftrightarrow> x = []"
  by (cases x) auto

lemma qsa_nonempty: "p \<in> set (querySelectorAll tag ns) \<Longrightarrow> p \<noteq> []"
  by (induction tag ns arbitrary: p rule: querySelectorAll.induct)
     (auto split: if_splits simp: bump_Nil_iff dest: sym)


lemma unwrapElement_bump:
  assumes "p \<noteq> []"
  shows "unwrapElement (bump p) (n # ns) = n # unwrapElement p ns"
proof (cases p)
  case Nil with assms show ?thesis by simp
next
  case (Cons i q)
  show ?thesis
  proof (cases "q = []")
    case True
    then have "unwrapElement (bump p) (n # ns) = (case moveChildrenOut (n # ns) (Suc i) of (s', k') \<Rightarrow> removeAt k' s')"
      by (simp add: Cons unwrapElement_def)
    moreover have "moveChildrenOut (n # ns) (Suc i) = (case moveChildrenOut ns i of (s', k') \<Rightarrow> (n # s', Suc k'))"
    proof (cases "i < length ns")
      case False then show ?thesis by (simp add: moveChildrenOut.simps[of _ i] moveChildrenOut.simps[of _ "Suc i"])
    next
      case il: True
      show ?thesis
      proof (cases "ns ! i")
        case (Text s) with il show ?thesis by (simp add: moveChildrenOut_Text)
      next
        case (Element t a cs)
        with il moveChildrenOut_eq[of i ns t a cs] moveChildrenOut_eq[of "Suc i" "n # ns" t a cs]
        show ?thesis by simp
      qed
    qed
    ultimately show ?thesis using True Cons
      by (simp add: unwrapElement_def removeAt_def split: prod.splits)
  next
    case False
    then show ?thesis using Cons by (cases q) (auto simp: unwrapElement_def split: node.splits)
  qed
qed
















lemma wrapStage_valid:
  assumes "wrapStage d r tag attrs = Inr x"
  shows "validElementName tag" "list_all (\<lambda>kv. validAttributeName (fst kv)) attrs"
proof -
  show "validElementName tag"
    using assms by (cases "validElementName tag") (simp_all add: wrapStage_def createElement_def)
  then show "list_all (\<lambda>kv. validAttributeName (fst kv)) attrs"
    using assms by (cases "list_all (\<lambda>kv. validAttributeName (fst kv)) attrs")
      (simp_all add: wrapStage_def createElement_def)
qed


lemma wrapRange_Inr:
  assumes "wrapRange d r tag attrs = Inr res"
  shows "\<exists>parent rest k w. wrapStage d r tag attrs = Inr (parent, rest, k, w)
           \<and> res = (wrapKids rest k w parent)\<lparr>newDoc := modifyAt parent (\<lambda>_. newDoc (wrapKids rest k w parent)) d\<rparr>"
  using assms
  by (auto simp: wrapRange_def Let_def split: sum.splits)



section \<open>Content conservation\<close>


lemma textOf_Nil: "textOf [] = []" by (simp add: textOf_def)
lemma textOf_Cons: "textOf (x # xs) = textContent x @ textOf xs" by (simp add: textOf_def)
lemma textOf_append: "textOf (xs @ ys) = textOf xs @ textOf ys" by (simp add: textOf_def)
lemma textContent_Element: "textContent (Element t a cs) = textOf cs" by (simp add: textOf_def)
lemma textOf_take_drop: "textOf (take k xs) @ textOf (drop k xs) = textOf xs"
  by (metis append_take_drop_id textOf_append)
lemma textOf_nth_split:
  "i < length xs \<Longrightarrow> textOf xs = textOf (take i xs) @ textContent (xs ! i) @ textOf (drop (Suc i) xs)"
  by (metis id_take_nth_drop textOf_append textOf_Cons)

lemma extractFrom_text:
  "extractFrom n p off = Some (f, r) \<Longrightarrow> textContent r @ textContent f = textContent n"
proof (induction n p off arbitrary: f r rule: extractFrom.induct)
  case (4 t a cs i p off)
  then obtain f' r' where e: "i < length cs" "extractFrom (cs ! i) p off = Some (f', r')"
    "f = Element t a (f' # drop (Suc i) cs)" "r = Element t a (take i cs @ [r'])"
    by (auto split: if_splits option.splits)
  from 4(1)[OF e(1,2)] have "textContent r' @ textContent f' = textContent (cs ! i)" .
  then show ?case using e textOf_nth_split[OF e(1)]
    by (simp add: textOf_def)
qed (auto split: if_splits simp: textOf_take_drop[unfolded textOf_def])

lemma extractUpTo_text:
  "extractUpTo n p off = Some (f, r) \<Longrightarrow> textContent f @ textContent r = textContent n"
proof (induction n p off arbitrary: f r rule: extractUpTo.induct)
  case (4 t a cs i p off)
  then obtain f' r' where e: "i < length cs" "extractUpTo (cs ! i) p off = Some (f', r')"
    "f = Element t a (take i cs @ [f'])" "r = Element t a (r' # drop (Suc i) cs)"
    by (auto split: if_splits option.splits)
  from 4(1)[OF e(1,2)] have "textContent f' @ textContent r' = textContent (cs ! i)" .
  then show ?case using e textOf_nth_split[OF e(1)]
    by (simp add: textOf_def)
qed (auto split: if_splits simp: textOf_take_drop[unfolded textOf_def])

lemma app_eq_assoc: "a @ b = c \<Longrightarrow> a @ b @ X = c @ X"
  by auto

lemma textOf_mid:
  "a \<le> b \<Longrightarrow> textOf (take a ns) @ textOf (take (b - a) (drop a ns)) @ textOf (drop b ns) = textOf ns"
proof -
  assume ab: "a \<le> b"
  have "take (b - a) (drop a ns) @ drop b ns = drop a ns"
    using ab by (metis append_take_drop_id drop_drop le_add_diff_inverse2)
  then have "textOf (take (b - a) (drop a ns)) @ textOf (drop b ns) = textOf (drop a ns)"
    by (metis textOf_append)
  then show ?thesis by (simp add: textOf_take_drop)
qed

lemma extractContents_text:
  "extractContents ns sp so ep eo = Some (frag, rest, k) \<Longrightarrow>
   textOf (take k rest) @ textOf frag @ textOf (drop k rest) = textOf ns"
proof (induction ns sp so ep eo rule: extractContents.induct)
  case (1 ns so eo)
  then have e: "so \<le> eo" "eo \<le> length ns" "frag = take (eo - so) (drop so ns)" "rest = take so ns @ drop eo ns" "k = so"
    by (auto split: if_splits)
  then show ?case using textOf_mid[OF e(1), of ns] by (simp add: textOf_def)
next
  case (2 ns so j q eo)
  then obtain f r where e: "so \<le> j" "j < length ns" "extractUpTo (ns ! j) q eo = Some (f, r)"
    "frag = take (j - so) (drop so ns) @ [f]" "rest = take so ns @ [r] @ drop (Suc j) ns" "k = so"
    by (auto split: if_splits option.splits)
  have mid: "textOf (take so ns) @ textOf (take (j - so) (drop so ns)) @ textOf (drop j ns) = textOf ns"
    by (rule textOf_mid[OF e(1)])
  have dj: "textOf (drop j ns) = textContent (ns ! j) @ textOf (drop (Suc j) ns)"
    using e(2) by (metis Cons_nth_drop_Suc textOf_Cons)
  have tk: "take k rest = take so ns" "drop k rest = r # drop (Suc j) ns"
    using e by simp_all
  have A: "textOf (take k rest) @ textOf frag @ textOf (drop k rest)
         = textOf (take so ns) @ textOf (take (j - so) (drop so ns)) @ (textContent f @ textContent r)
             @ textOf (drop (Suc j) ns)"
    unfolding tk e(4) by (simp add: textOf_def)
  show ?case unfolding A extractUpTo_text[OF e(3)] using mid dj by simp
next
  case (3 ns i p so eo)
  then obtain f r where e: "i < eo" "eo \<le> length ns" "extractFrom (ns ! i) p so = Some (f, r)"
    "frag = f # take (eo - Suc i) (drop (Suc i) ns)" "rest = take i ns @ [r] @ drop eo ns" "k = Suc i"
    by (auto split: if_splits option.splits)
  have il: "i < length ns" using e by simp
  have "textOf (take (Suc i) ns) @ textOf (take (eo - Suc i) (drop (Suc i) ns)) @ textOf (drop eo ns) = textOf ns"
    using e(1) by (intro textOf_mid) simp
  moreover have "textOf (take (Suc i) ns) = textOf (take i ns) @ textContent (ns ! i)"
    using il by (simp add: take_Suc_conv_app_nth textOf_def)
  ultimately show ?case using e(1,2,4,5,6) il
    by (simp add: textOf_def app_eq_assoc[OF extractFrom_text[OF e(3)]])
next
  case (4 ns i p so j q eo)
  then obtain f1 r1 f2 r2 where e: "i < j" "j < length ns" "extractFrom (ns ! i) p so = Some (f1, r1)"
    "extractUpTo (ns ! j) q eo = Some (f2, r2)"
    "frag = f1 # take (j - Suc i) (drop (Suc i) ns) @ [f2]" "rest = take i ns @ [r1, r2] @ drop (Suc j) ns" "k = Suc i"
    by (auto split: if_splits option.splits)
  have il: "i < length ns" using e by simp
  have "textOf (take (Suc i) ns) @ textOf (take (j - Suc i) (drop (Suc i) ns)) @ textOf (drop j ns) = textOf ns"
    using e(1) by (intro textOf_mid) simp
  moreover have "textOf (take (Suc i) ns) = textOf (take i ns) @ textContent (ns ! i)"
    using il by (simp add: take_Suc_conv_app_nth textOf_def)
  moreover have "textOf (drop j ns) = textContent (ns ! j) @ textOf (drop (Suc j) ns)"
    using e(2) by (metis Cons_nth_drop_Suc textOf_Cons)
  ultimately show ?case using e(1,2,5,6,7) il
    by (simp add: textOf_def app_eq_assoc[OF extractFrom_text[OF e(3)]]
                  app_eq_assoc[OF extractUpTo_text[OF e(4)]])
qed

lemma unwrap_first_text:
  "querySelectorAll tag ns = p # ps \<Longrightarrow> textOf (unwrapElement p ns) = textOf ns"
proof (induction tag ns arbitrary: p ps rule: querySelectorAll.induct)
  case (1 tag) then show ?case by simp
next
  case (2 tag s ns)
  then obtain p' ps' where e: "querySelectorAll tag ns = p' # ps'" "p = bump p'" by auto
  then have "p' \<noteq> []" using qsa_nonempty[of p' tag ns] by auto
  with 2(1)[OF e(1)] e show ?case by (simp add: unwrapElement_bump textOf_Cons)
next
  case (3 tag t a cs ns)
  show ?case
  proof (cases "t = tag")
    case True
    with 3(3) have "p = [0]" by auto
    then show ?thesis by (simp add: unwrapElement_single textOf_def)
  next
    case nt: False
    show ?thesis
    proof (cases "querySelectorAll tag cs")
      case Nil
      with nt 3(3) obtain p' ps' where e: "querySelectorAll tag ns = p' # ps'" "p = bump p'" by auto
      then have "p' \<noteq> []" using qsa_nonempty[of p' tag ns] by auto
      with 3(2)[OF e(1)] e show ?thesis by (simp add: unwrapElement_bump textOf_Cons)
    next
      case (Cons q qs)
      with nt 3(3) have e: "p = 0 # q" by auto
      have "q \<noteq> []" using qsa_nonempty[of q tag cs] Cons by auto
      with 3(1)[OF Cons] e show ?thesis by (simp add: unwrapElement_Cons textOf_def)
    qed
  qed
qed

lemma removeTagsLoop_text: "textOf (removeTagsLoop n tag frag) = textOf frag"
proof (induction n arbitrary: frag)
  case 0 then show ?case by simp
next
  case (Suc n)
  show ?case
  proof (cases "querySelectorAll tag frag")
    case Nil then show ?thesis by simp
  next
    case (Cons p ps)
    with Suc.IH[of "unwrapElement p frag"] unwrap_first_text[OF Cons] show ?thesis by simp
  qed
qed

lemma removeTagsFromFragment_text: "textOf (removeTagsFromFragment frag tag) = textOf frag"
  by (simp add: removeTagsFromFragment_def Let_def removeTagsLoop_text)

lemma removeEmpty_text: "textOf (removeEmpty t ns) = textOf ns"
  by (induction t ns rule: removeEmpty.induct) (auto simp: textOf_def)

lemma cleanup_text: "textOf (cleanupEmptyElements ns) = textOf ns"
proof -
  have "textOf (foldl (\<lambda>ks tag. removeEmpty tag ks) ns ts) = textOf ns" for ts
    by (induction ts arbitrary: ns) (auto simp: removeEmpty_text)
  then show ?thesis unfolding cleanupEmptyElements_def Let_def by blast
qed

lemma wrapStage_text:
  assumes "wrapStage d r tag attrs = Inr (parent, rest, k, w)"
  shows "\<exists>kids. kidsAt d parent = Some kids \<and> textOf (insertAt k w rest) = textOf kids"
proof -
  note v = wrapStage_valid[OF assms]
  define c where "c = commonAncestorContainer r"
  show ?thesis
  proof (cases "\<exists>s. (if c = [] then None else nodeAt d c) = Some (Text s)")
    case True
    then obtain s where s: "(if c = [] then None else nodeAt d c) = Some (Text s)" by blast
    then have na: "nodeAt d c = Some (Text s)" by (auto split: if_splits)
    from nodeAt_parent_kids[OF na] obtain sibs where sibs:
      "kidsAt d (butlast c) = Some sibs" "last c < length sibs" "sibs ! last c = Text s" by blast
    let ?so = "startOffset r" and ?eo = "endOffset r" and ?m = "last c"
    from assms s sibs(1) have e: "?so \<le> ?eo" "?eo \<le> length s" "parent = butlast c" "k = Suc ?m"
      "rest = take ?m sibs @ [Text (take ?so s), Text (drop ?eo s)] @ drop (Suc ?m) sibs"
      "w = Element (toUpperCase tag) (setAttributes attrs) (removeTagsFromFragment [Text (take (?eo - ?so) (drop ?so s))] tag)"
      by (auto simp: wrapStage_def createElement_def v Let_def c_def[symmetric] split: if_splits)
    have tk: "take k rest = take ?m sibs @ [Text (take ?so s)]" "drop k rest = Text (drop ?eo s) # drop (Suc ?m) sibs"
      using e sibs(2) by simp_all
    have mid: "take ?so s @ take (?eo - ?so) (drop ?so s) @ drop ?eo s = s"
      using e(1) by (metis append_take_drop_id drop_drop le_add_diff_inverse2)
    have "textOf (insertAt k w rest) = textOf (take ?m sibs) @ (take ?so s @ take (?eo - ?so) (drop ?so s) @ drop ?eo s) @ textOf (drop (Suc ?m) sibs)"
      unfolding insertAt_def tk e(6)
      by (simp add: textOf_append textOf_Cons textOf_Nil removeTagsFromFragment_text[unfolded textOf_def] textOf_def)
    also have "\<dots> = textOf sibs" unfolding mid using textOf_nth_split[OF sibs(2)] sibs(3) by simp
    finally show ?thesis using sibs(1) e(3) by simp
  next
    case False
    with assms obtain kids where kids: "kidsAt d c = Some kids"
      by (cases "kidsAt d c") (auto simp: wrapStage_def createElement_def v Let_def c_def[symmetric] split: option.splits node.splits if_splits)
    from False assms kids obtain frag where ex:
      "extractContents kids (drop (length c) (startContainer r)) (startOffset r) (drop (length c) (endContainer r)) (endOffset r)
         = Some (frag, rest, k)" "parent = c" "w = Element (toUpperCase tag) (setAttributes attrs) (removeTagsFromFragment frag tag)"
      by (cases "extractContents kids (drop (length c) (startContainer r)) (startOffset r) (drop (length c) (endContainer r)) (endOffset r)")
         (auto simp: wrapStage_def createElement_def v Let_def c_def[symmetric] split: option.splits node.splits if_splits)
    from extractContents_text[OF ex(1)] have "textOf (take k rest) @ textOf frag @ textOf (drop k rest) = textOf kids" .
    then have "textOf (insertAt k w rest) = textOf kids"
      unfolding insertAt_def ex(3)
      by (simp add: textOf_append textOf_Cons textOf_Nil removeTagsFromFragment_text[unfolded textOf_def] textOf_def)
    with kids ex(2) show ?thesis by simp
  qed
qed

lemma textOf_modifyAt:
  "kidsAt d p = Some ks \<Longrightarrow> textOf (f ks) = textOf ks \<Longrightarrow> textOf (modifyAt p f d) = textOf d"
proof (induction d p arbitrary: ks rule: kidsAt.induct)
  case (1 ns) then show ?case by simp
next
  case (2 ns i p)
  then obtain t a cs where e: "i < length ns" "ns ! i = Element t a cs" "kidsAt cs p = Some ks"
    by (auto split: if_splits node.splits)
  from 2(1)[OF e(1,2,3) 2(3)] have "textOf (modifyAt p f cs) = textOf cs" .
  then show ?case using e textOf_nth_split[OF e(1)]
    by (simp add: upd_conv_take_nth_drop textOf_append textOf_Cons textOf_def)
qed


lemma wrapBlocks_step:
  assumes "wrapBlocks tag attrs n ((i, Some block) # todo) L = Inr L'"
  shows "wrapBlocks tag attrs n todo L = Inr L'
       \<or> (\<exists>br res L1 todo1. wrapRange (ldoc L) br tag attrs = Inr res \<and> ldoc L1 = newDoc res
              \<and> length todo1 = length todo \<and> wrapBlocks tag attrs n todo1 L1 = Inr L')"
proof -
  define br where "br = (if i = 0 then setStartEnd (rangeStart (getRangeAt0 (lsel L))) (block, nodeLength (ldoc L) block)
                             else if i = n - 1 then setStartEnd (block, 0) (rangeEnd (getRangeAt0 (lsel L)))
                             else selectNodeContents (ldoc L) block)"
  show ?thesis
  proof (cases "collapsed br")
    case True
    with assms show ?thesis by (simp add: wrapBlocks.simps Let_def br_def)
  next
    case False
    show ?thesis
    proof (cases "wrapRange (ldoc L) br tag attrs")
      case (Inl e)
      with assms False show ?thesis by (simp add: wrapBlocks.simps Let_def br_def)
    next
      case (Inr res)
      define todo1 where "todo1 = map (\<lambda>jb. (fst jb, Option.bind (snd jb) (wrapTrackNode (ldoc L) br tag attrs))) todo"
      define L1 where "L1 = \<lparr>ldoc = newDoc res,
            lsel = adjustSelection (wrapTrackPos (ldoc L) br tag attrs) (lsel L),
            firstWrapper = (if i = 0 then (case wrapperPath res of None \<Rightarrow> Detached | Some p \<Rightarrow> At p) else firstWrapper L),
            lastWrapper =
              (if i = n - 1 then (case wrapperPath res of None \<Rightarrow> Detached | Some p \<Rightarrow> At p)
               else (case lastWrapper L of
                       At p \<Rightarrow> (case wrapTrackNode (ldoc L) br tag attrs p of None \<Rightarrow> Detached | Some p' \<Rightarrow> At p')
                     | x \<Rightarrow> x))\<rparr>"
      from assms False Inr have run: "wrapBlocks tag attrs n todo1 L1 = Inr L'"
        by (simp add: wrapBlocks.simps Let_def br_def[symmetric] todo1_def L1_def)
      have "ldoc L1 = newDoc res" "length todo1 = length todo" by (simp_all add: L1_def todo1_def)
      with run Inr show ?thesis by blast
    qed
  qed
qed

lemma wrapBlocks_invariant:
  assumes step: "\<And>d r res. Q d \<Longrightarrow> wrapRange d r tag attrs = Inr res \<Longrightarrow> Q (newDoc res)"
  shows "Q (ldoc L) \<Longrightarrow> wrapBlocks tag attrs n todo L = Inr L' \<Longrightarrow> Q (ldoc L')"
proof (induction "length todo" arbitrary: todo L)
  case 0
  then show ?case by (simp add: wrapBlocks.simps)
next
  case (Suc k)
  then obtain i b rest where todo: "todo = (i, b) # rest" by (cases todo) auto
  with Suc(2) have len: "k = length rest" by simp
  show ?case
  proof (cases b)
    case None
    with Suc(4) todo have "wrapBlocks tag attrs n rest L = Inr L'" by (simp add: wrapBlocks.simps)
    from Suc(1)[OF len Suc(3) this] show ?thesis .
  next
    case (Some block)
    from wrapBlocks_step[OF Suc(4)[unfolded todo Some]] show ?thesis
    proof
      assume "wrapBlocks tag attrs n rest L = Inr L'"
      from Suc(1)[OF len Suc(3) this] show ?thesis .
    next
      assume "\<exists>br res L1 todo1. wrapRange (ldoc L) br tag attrs = Inr res \<and> ldoc L1 = newDoc res
              \<and> length todo1 = length rest \<and> wrapBlocks tag attrs n todo1 L1 = Inr L'"
      then obtain br res L1 todo1 where h: "wrapRange (ldoc L) br tag attrs = Inr res" "ldoc L1 = newDoc res"
        "length todo1 = length rest" "wrapBlocks tag attrs n todo1 L1 = Inr L'" by blast
      from step[OF Suc(3) h(1)] h(2) have "Q (ldoc L1)" by simp
      from Suc(1)[of todo1 L1] len h(3) this h(4) show ?thesis by simp
    qed
  qed
qed

lemma wrapSelectionPerBlock_invariant:
  assumes step: "\<And>d r res. Q d \<Longrightarrow> wrapRange d r tag attrs = Inr res \<Longrightarrow> Q (newDoc res)"
    and "Q (doc st)" "wrapSelectionPerBlock tag attrs st = Inr st'"
  shows "Q (doc st')"
proof (cases "sel st")
  case None
  with assms(2,3) show ?thesis by (simp add: wrapSelectionPerBlock_def)
next
  case (Some s)
  show ?thesis
  proof (cases "rangeCount s = 0 \<or> collapsed (getRangeAt0 s)")
    case True
    with assms(2,3) Some show ?thesis by (auto simp: wrapSelectionPerBlock_def Let_def split: if_splits)
  next
    case False
    define blocks where "blocks = getBlocksInSelection (doc st) (getRangeAt0 s)"
    show ?thesis
    proof (cases "length blocks = 0 \<or> length blocks = 1")
      case True
      with assms(3) Some False obtain res where res: "wrapRange (doc st) (getRangeAt0 s) tag attrs = Inr res"
        "doc st' = newDoc res"
        by (cases "wrapRange (doc st) (getRangeAt0 s) tag attrs")
           (auto simp: wrapSelectionPerBlock_def Let_def blocks_def[symmetric])
      from step[OF assms(2) res(1)] res(2) show ?thesis by simp
    next
      case nb: False
      let ?L0 = "\<lparr>ldoc = doc st, lsel = s, firstWrapper = Null, lastWrapper = Null\<rparr>"
      from assms(3) Some False nb obtain L where L:
        "wrapBlocks tag attrs (length blocks) (rev (zip [0..<length blocks] (map Some blocks))) ?L0 = Inr L"
        "doc st' = ldoc L"
        by (cases "wrapBlocks tag attrs (length blocks) (rev (zip [0..<length blocks] (map Some blocks))) ?L0")
           (auto simp: wrapSelectionPerBlock_def Let_def blocks_def[symmetric])
      have "Q (ldoc ?L0)" using assms(2) by simp
      from wrapBlocks_invariant[of Q tag attrs, OF step this L(1)] L(2) show ?thesis by simp
    qed
  qed
qed

lemma modifyAt_kids: "kidsAt d p = Some ks \<Longrightarrow> modifyAt p f d = modifyAt p (\<lambda>_. f ks) d"
proof (induction d p rule: kidsAt.induct)
  case (1 ns) then show ?case by simp
next
  case (2 ns i p)
  then show ?case by (auto split: if_splits node.splits)
qed

lemma unwrapElement_splice:
  assumes "nodeAt d p = Some (Element t a cs)"
  shows "\<exists>sibs. kidsAt d (butlast p) = Some sibs \<and> last p < length sibs \<and> sibs ! last p = Element t a cs
           \<and> unwrapElement p d = modifyAt (butlast p) (\<lambda>_. take (last p) sibs @ cs @ drop (Suc (last p)) sibs) d"
proof -
  from nodeAt_parent_kids[OF assms] obtain sibs where s:
    "kidsAt d (butlast p) = Some sibs" "last p < length sibs" "sibs ! last p = Element t a cs" by blast
  have "unwrapElement p d = modifyAt (butlast p) (\<lambda>_. case moveChildrenOut sibs (last p) of (sibs', k') \<Rightarrow> removeAt k' sibs') d"
    unfolding unwrapElement_def by (rule modifyAt_kids[OF s(1)])
  also have "(case moveChildrenOut sibs (last p) of (sibs', k') \<Rightarrow> removeAt k' sibs')
           = take (last p) sibs @ cs @ drop (Suc (last p)) sibs"
    using s(2) by (simp add: moveChildrenOut_eq[OF s(2,3)] removeAt_def)
  finally show ?thesis using s by blast
qed

lemma unwrapElement_text:
  assumes "nodeAt d p = Some (Element t a cs)"
  shows "textOf (unwrapElement p d) = textOf d"
proof -
  from unwrapElement_splice[OF assms] obtain sibs where s:
    "kidsAt d (butlast p) = Some sibs" "last p < length sibs" "sibs ! last p = Element t a cs"
    "unwrapElement p d = modifyAt (butlast p) (\<lambda>_. take (last p) sibs @ cs @ drop (Suc (last p)) sibs) d" by blast
  have "textOf (take (last p) sibs @ cs @ drop (Suc (last p)) sibs) = textOf sibs"
    using textOf_nth_split[OF s(2)] s(3) by (simp add: textOf_def)
  with textOf_modifyAt[OF s(1), of "\<lambda>_. take (last p) sibs @ cs @ drop (Suc (last p)) sibs"] s(4)
  show ?thesis by simp
qed

lemma walkUp_Some:
  "walkUp d p P = Some q \<Longrightarrow> \<exists>n. nodeAt d q = Some n \<and> P n"
proof (induction d p P rule: walkUp.induct)
  case (1 d p P)
  show ?case
  proof (cases "p = []")
    case True with 1(2) show ?thesis by (simp add: walkUp.simps[of d "[]"])
  next
    case False
    show ?thesis
    proof (cases "nodeAt d p")
      case None with 1(2) False show ?thesis by (simp add: walkUp.simps[of d p])
    next
      case (Some cur)
      show ?thesis
      proof (cases "P cur")
        case True
        with 1(2) False Some show ?thesis by (simp add: walkUp.simps[of d p])
      next
        case nP: False
        with 1(2) False Some have "walkUp d (butlast p) P = Some q" by (simp add: walkUp.simps[of d p])
        from 1(1)[OF False Some nP this] show ?thesis .
      qed
    qed
  qed
qed

lemma unwrapSelection_text: "textOf (doc (unwrapSelection tag st)) = textOf (doc st)"
proof (cases "sel st")
  case None then show ?thesis by (simp add: unwrapSelection_def)
next
  case (Some s)
  show ?thesis
  proof (cases "rangeCount s = 0")
    case True with Some show ?thesis by (simp add: unwrapSelection_def)
  next
    case False
    show ?thesis
    proof (cases "walkUp (doc st) (anchorNode s) (\<lambda>node. isElement node \<and> tagName node = toUpperCase tag)")
      case None with Some False show ?thesis by (simp add: unwrapSelection_def Let_def)
    next
      case (Some p)
      from walkUp_Some[OF Some] obtain n where n: "nodeAt (doc st) p = Some n" "isElement n" by blast
      then obtain t a cs where "n = Element t a cs" by (cases n) auto
      with n unwrapElement_text[of "doc st" p t a cs] have "textOf (unwrapElement p (doc st)) = textOf (doc st)" by simp
      with \<open>sel st = Some s\<close> False Some show ?thesis by (simp add: unwrapSelection_def Let_def)
    qed
  qed
qed








lemma LI_isElement: "tagName block = ''LI'' \<Longrightarrow> isElement block"
  by (cases block) auto



section \<open>Content conservation and absent selection\<close>




text \<open>
  The two other provisos are needed as well. The round trip through
  \<^verbatim>\<open>innerHTML\<close> does not keep a carriage return: \<open>setBlockType\<close> turns
  \<^verbatim>\<open><p>a&#13;b</p>\<close> into a heading whose text has a line feed in its place.
\<close>

lemma setBlockType_round_trip_changes_text:
  "setBlockType reparse ''h1''
     \<lparr>doc = [Element ''P'' [] [Text [CHR ''a'', CHR 0x0D, CHR ''b'']]],
      sel = setSelection (mkRange ([0, 0], 0) ([0, 0], 0))\<rparr>
   = Inr \<lparr>doc = [Element ''H1'' [] [Text [CHR ''a'', CHR 0x0A, CHR ''b'']]],
          sel = setSelection (mkRange ([0], 1) ([0], 1))\<rparr>"
  by (simp add: setBlockType_def setSelection_def rangeCount_def getParentBlock_def findParentBlock_def
      anchorNode_def getRangeAt0_def mkRange_def walkUp.simps BLOCK_TAGS_def toLowerCase_def lowerChar_def
      toUpperCase_def upperChar_def isListElementAt_def extractListItem_def children_def removeAt_def
      collapsedAtEnd_def modifyNode_def reparse_def parsedText_def createElement_def validElementName_def
      asciiAlpha_def asciiWhitespace_def Let_def)

text \<open>
  And for a list item that lies directly in \<^verbatim>\<open>editorContent\<close>, \<open>toggleList\<close>
  moves every child of \<^verbatim>\<open>editorContent\<close> into a list that takes its place in the
  page, so that \<^verbatim>\<open>editorContent\<close> is left empty.
\<close>

lemma toggleList_item_in_editorContent:
  "toggleList rt ul
     \<lparr>doc = [Element ''LI'' [] [Text ''x'']], sel = setSelection (mkRange ([0, 0], 0) ([0, 0], 1))\<rparr>
   = Inr \<lparr>doc = [], sel = setSelection (mkRange ([0], 1) ([0], 1))\<rparr>"
  by (simp add: toggleList_def setSelection_def rangeCount_def getParentBlock_def findParentBlock_def
      anchorNode_def getRangeAt0_def mkRange_def walkUp.simps BLOCK_TAGS_def Let_def at_def
      childrenIndices_def lastElementChild_def collapsedAtEnd_def)

text \<open>
  Claim C8. Without an active selection (\<^verbatim>\<open>getSelection()\<close> is null, or the selection
  holds no range) every entry point returns normally and leaves the state, tree and
  selection, as it was.
\<close>

theorem no_selection_is_noop:
  assumes "sel st = None \<or> (\<exists>s. sel st = Some s \<and> rangeCount s = 0)"
  shows "toggleElement tag st = Inr st \<and> setBlockType rt tag st = Inr st \<and> setAlignment v st = st
       \<and> toggleList rt ty st = Inr st \<and> insertFigure url st = Inr st"
  using assms
  by (auto simp: toggleElement_def setBlockType_def setAlignment_def toggleList_def insertFigure_def)

theorem no_selection_is_noop_witness:
  "sel \<lparr>doc = [Element ''P'' [] [Text ''hello'']], sel = None\<rparr> = None
   \<and> toggleElement ''strong'' \<lparr>doc = [Element ''P'' [] [Text ''hello'']], sel = None\<rparr>
        = Inr \<lparr>doc = [Element ''P'' [] [Text ''hello'']], sel = None\<rparr>
   \<and> setBlockType reparse ''h1'' \<lparr>doc = [Element ''P'' [] [Text ''hello'']], sel = None\<rparr>
        = Inr \<lparr>doc = [Element ''P'' [] [Text ''hello'']], sel = None\<rparr>
   \<and> setAlignment ''center'' \<lparr>doc = [Element ''P'' [] [Text ''hello'']], sel = None\<rparr>
        = \<lparr>doc = [Element ''P'' [] [Text ''hello'']], sel = None\<rparr>
   \<and> toggleList reparse ul \<lparr>doc = [Element ''P'' [] [Text ''hello'']], sel = None\<rparr>
        = Inr \<lparr>doc = [Element ''P'' [] [Text ''hello'']], sel = None\<rparr>
   \<and> insertFigure ''u'' \<lparr>doc = [Element ''P'' [] [Text ''hello'']], sel = None\<rparr>
        = Inr \<lparr>doc = [Element ''P'' [] [Text ''hello'']], sel = None\<rparr>"
proof -
  let ?st = "\<lparr>doc = [Element ''P'' [] [Text ''hello'']], sel = None\<rparr>"
  have h: "sel ?st = None \<or> (\<exists>s. sel ?st = Some s \<and> rangeCount s = 0)" by simp
  from no_selection_is_noop[OF h, where tag="''strong''" and rt=reparse and v="''center''" and ty=ul and url="''u''"]
       no_selection_is_noop[OF h, where tag="''h1''" and rt=reparse and v="''center''" and ty=ul and url="''u''"]
  show ?thesis by simp
qed

section \<open>Collapsed selections and toggling twice\<close>


lemma findAncestor_walkUp:
  "findAncestor d p tag = walkUp d p (\<lambda>node. isElement node \<and> tagName node = toUpperCase tag)"
  by (simp add: findAncestor_def isElementWithTag_def)

text \<open>
  Claim C9. With a collapsed selection, \<open>toggleElement\<close> does nothing when the cursor has
  no ancestor element of the tag below \<^verbatim>\<open>editorContent\<close>. When it has one, the nearest
  such element alone is removed: in the child list of its parent the element is replaced
  by its own children, in order, nothing else in the tree changes, and the text of the
  tree is as before.
\<close>

theorem toggleElement_collapsed:
  assumes "sel st = Some s" and "rangeCount s \<noteq> 0" and "collapsed (getRangeAt0 s)"
  shows "(findAncestor (doc st) (anchorNode s) tag = None \<longrightarrow> toggleElement tag st = Inr st)
       \<and> (\<forall>p. findAncestor (doc st) (anchorNode s) tag = Some p \<longrightarrow>
            (\<exists>a cs sibs. nodeAt (doc st) p = Some (Element (toUpperCase tag) a cs)
               \<and> kidsAt (doc st) (butlast p) = Some sibs \<and> last p < length sibs
               \<and> (\<exists>st'. toggleElement tag st = Inr st'
                    \<and> doc st' = modifyAt (butlast p) (\<lambda>_. take (last p) sibs @ cs @ drop (Suc (last p)) sibs) (doc st)
                    \<and> textOf (doc st') = textOf (doc st))))"
proof (intro conjI allI impI)
  assume "findAncestor (doc st) (anchorNode s) tag = None"
  with assms show "toggleElement tag st = Inr st"
    by (simp add: toggleElement_def isInElement_def Let_def)
next
  fix p assume f: "findAncestor (doc st) (anchorNode s) tag = Some p"
  then have w: "walkUp (doc st) (anchorNode s) (\<lambda>node. isElement node \<and> tagName node = toUpperCase tag) = Some p"
    by (simp add: findAncestor_walkUp)
  from walkUp_Some[OF w] obtain n where n: "nodeAt (doc st) p = Some n" "isElement n" "tagName n = toUpperCase tag"
    by blast
  then obtain a cs where e: "nodeAt (doc st) p = Some (Element (toUpperCase tag) a cs)"
    by (cases n) auto
  from unwrapElement_splice[OF e] obtain sibs where s:
    "kidsAt (doc st) (butlast p) = Some sibs" "last p < length sibs"
    "unwrapElement p (doc st) = modifyAt (butlast p) (\<lambda>_. take (last p) sibs @ cs @ drop (Suc (last p)) sibs) (doc st)"
    by blast
  from assms f have t: "toggleElement tag st = Inr (unwrapSelection tag st)"
    by (simp add: toggleElement_def isInElement_def Let_def)
  from assms w have d: "doc (unwrapSelection tag st) = unwrapElement p (doc st)"
    by (simp add: unwrapSelection_def Let_def)
  show "\<exists>a cs sibs. nodeAt (doc st) p = Some (Element (toUpperCase tag) a cs)
               \<and> kidsAt (doc st) (butlast p) = Some sibs \<and> last p < length sibs
               \<and> (\<exists>st'. toggleElement tag st = Inr st'
                    \<and> doc st' = modifyAt (butlast p) (\<lambda>_. take (last p) sibs @ cs @ drop (Suc (last p)) sibs) (doc st)
                    \<and> textOf (doc st') = textOf (doc st))"
    using e s t d unwrapSelection_text[of tag st] by auto
qed

theorem toggleElement_collapsed_witness:
  "collapsed (mkRange ([0, 1, 0], 1) ([0, 1, 0], 1))
   \<and> (\<exists>st'. toggleElement ''strong''
        \<lparr>doc = [Element ''P'' [] [Text ''a'', Element ''STRONG'' [] [Text ''bc'', Element ''EM'' [] [Text ''d'']], Text ''e'']],
         sel = setSelection (mkRange ([0, 1, 0], 1) ([0, 1, 0], 1))\<rparr> = Inr st'
        \<and> doc st' = [Element ''P'' [] [Text ''a'', Text ''bc'', Element ''EM'' [] [Text ''d''], Text ''e'']])
   \<and> toggleElement ''em''
        \<lparr>doc = [Element ''P'' [] [Text ''a'', Element ''STRONG'' [] [Text ''bc'', Element ''EM'' [] [Text ''d'']], Text ''e'']],
         sel = setSelection (mkRange ([0, 1, 0], 1) ([0, 1, 0], 1))\<rparr>
       = Inr \<lparr>doc = [Element ''P'' [] [Text ''a'', Element ''STRONG'' [] [Text ''bc'', Element ''EM'' [] [Text ''d'']], Text ''e'']],
         sel = setSelection (mkRange ([0, 1, 0], 1) ([0, 1, 0], 1))\<rparr>"
proof -
  let ?s = "\<lparr>ranges = [mkRange ([0, 1, 0], 1) ([0, 1, 0], 1)], backward = False\<rparr>"
  let ?st = "\<lparr>doc = [Element ''P'' [] [Text ''a'', Element ''STRONG'' [] [Text ''bc'', Element ''EM'' [] [Text ''d'']], Text ''e'']],
         sel = setSelection (mkRange ([0, 1, 0], 1) ([0, 1, 0], 1))\<rparr>"
  have h1: "sel ?st = Some ?s" by (simp add: setSelection_def)
  have h2: "rangeCount ?s \<noteq> 0" by (simp add: rangeCount_def)
  have h3: "collapsed (getRangeAt0 ?s)" by (simp add: getRangeAt0_def collapsed_def mkRange_def)
  have f1: "findAncestor (doc ?st) (anchorNode ?s) ''strong'' = Some [0, 1]"
    by (simp add: findAncestor_def isElementWithTag_def anchorNode_def getRangeAt0_def mkRange_def
        walkUp.simps toUpperCase_def upperChar_def)
  have f2: "findAncestor (doc ?st) (anchorNode ?s) ''em'' = None"
    by (simp add: findAncestor_def isElementWithTag_def anchorNode_def getRangeAt0_def mkRange_def
        walkUp.simps toUpperCase_def upperChar_def)
  have c: "collapsed (mkRange ([0, 1, 0], 1) ([0, 1, 0], 1))" by (simp add: collapsed_def mkRange_def)
  from toggleElement_collapsed[OF h1 h2 h3, of "''strong''"] f1
  have a: "\<exists>st'. toggleElement ''strong'' ?st = Inr st'
        \<and> doc st' = [Element ''P'' [] [Text ''a'', Text ''bc'', Element ''EM'' [] [Text ''d''], Text ''e'']]"
    by (auto simp: toUpperCase_def upperChar_def)
  from toggleElement_collapsed[OF h1 h2 h3, of "''em''"] f2
  have b: "toggleElement ''em'' ?st = Inr ?st" by simp
  from c a b show ?thesis by (intro conjI)
qed

text \<open>
  Claim C5 fails for a selection that starts out fully wrapped. In
  \<^verbatim>\<open><p>hello <strong>world</strong></p>\<close> with \<^verbatim>\<open>world\<close> selected,
  \<open>isSelectionFullyWrapped\<close> is true. The first \<open>toggleElement\<close> unwraps, and
  \<open>unwrapSelection\<close> leaves the live selection where the DOM puts it when the element
  is removed: collapsed in the paragraph, behind the text that was moved out. The second
  \<open>toggleElement\<close> therefore finds a collapsed selection outside any STRONG and changes
  nothing, and \<open>isSelectionFullyWrapped\<close> is false afterwards.
\<close>

theorem toggleElement_twice_fully_wrapped:
  "isSelectionFullyWrapped ''strong''
      \<lparr>doc = [Element ''P'' [] [Text ''hello '', Element ''STRONG'' [] [Text ''world'']]],
       sel = setSelection (mkRange ([0, 1, 0], 0) ([0, 1, 0], 5))\<rparr>
   \<and> toggleElement ''strong''
      \<lparr>doc = [Element ''P'' [] [Text ''hello '', Element ''STRONG'' [] [Text ''world'']]],
       sel = setSelection (mkRange ([0, 1, 0], 0) ([0, 1, 0], 5))\<rparr>
     = Inr \<lparr>doc = [Element ''P'' [] [Text ''hello '', Text ''world'']],
            sel = setSelection (mkRange ([0], 2) ([0], 2))\<rparr>
   \<and> toggleElement ''strong''
      \<lparr>doc = [Element ''P'' [] [Text ''hello '', Text ''world'']],
       sel = setSelection (mkRange ([0], 2) ([0], 2))\<rparr>
     = Inr \<lparr>doc = [Element ''P'' [] [Text ''hello '', Text ''world'']],
            sel = setSelection (mkRange ([0], 2) ([0], 2))\<rparr>
   \<and> \<not> isSelectionFullyWrapped ''strong''
      \<lparr>doc = [Element ''P'' [] [Text ''hello '', Text ''world'']],
       sel = setSelection (mkRange ([0], 2) ([0], 2))\<rparr>"
proof -
  have a: "isSelectionFullyWrapped ''strong''
      \<lparr>doc = [Element ''P'' [] [Text ''hello '', Element ''STRONG'' [] [Text ''world'']]],
       sel = setSelection (mkRange ([0, 1, 0], 0) ([0, 1, 0], 5))\<rparr>"
    by (simp add: isSelectionFullyWrapped_def setSelection_def rangeCount_def getRangeAt0_def mkRange_def
        commonAncestorContainer_def isTextAt_def fullyWrappedFrom.simps toUpperCase_def upperChar_def
        selectNodeContents_def nodeLength_def cmpPos_def rangeStart_def rangeEnd_def)
  have b: "toggleElement ''strong''
      \<lparr>doc = [Element ''P'' [] [Text ''hello '', Element ''STRONG'' [] [Text ''world'']]],
       sel = setSelection (mkRange ([0, 1, 0], 0) ([0, 1, 0], 5))\<rparr>
     = Inr \<lparr>doc = [Element ''P'' [] [Text ''hello '', Text ''world'']],
            sel = setSelection (mkRange ([0], 2) ([0], 2))\<rparr>"
    using a
    by (simp add: toggleElement_def unwrapSelection_def setSelection_def rangeCount_def getRangeAt0_def
        mkRange_def collapsed_def anchorNode_def walkUp.simps toUpperCase_def upperChar_def
        unwrapElement_def moveChildrenOut.simps removeAt_def adjustSelection_def adjustRange_def
        unwrapAdjust_def rangeStart_def rangeEnd_def nodeLength_def Let_def)
  have c: "toggleElement ''strong''
      \<lparr>doc = [Element ''P'' [] [Text ''hello '', Text ''world'']],
       sel = setSelection (mkRange ([0], 2) ([0], 2))\<rparr>
     = Inr \<lparr>doc = [Element ''P'' [] [Text ''hello '', Text ''world'']],
            sel = setSelection (mkRange ([0], 2) ([0], 2))\<rparr>"
    by (simp add: toggleElement_def isInElement_def findAncestor_def isElementWithTag_def setSelection_def
        rangeCount_def getRangeAt0_def mkRange_def collapsed_def anchorNode_def walkUp.simps
        toUpperCase_def upperChar_def Let_def)
  have d: "\<not> isSelectionFullyWrapped ''strong''
      \<lparr>doc = [Element ''P'' [] [Text ''hello '', Text ''world'']],
       sel = setSelection (mkRange ([0], 2) ([0], 2))\<rparr>"
    by (simp add: isSelectionFullyWrapped_def setSelection_def rangeCount_def getRangeAt0_def mkRange_def
        commonAncestorContainer_def isTextAt_def fullyWrappedFrom.simps toUpperCase_def upperChar_def
        selectNodeContents_def nodeLength_def cmpPos_def rangeStart_def rangeEnd_def)
  from a b c d show ?thesis by (intro conjI)
qed

section \<open>No empty inline element\<close>


lemma noEmptyInline_eq: "noEmptyInline n = noEmptyOf (set INLINE_TAGS) n"
  by (induction n) (auto simp: list_all_iff)

lemma noEmptyOf_empty: "noEmptyOf {} n"
  by (induction n) (auto simp: list_all_iff)

lemma removeEmpty_noEmptyOf:
  "list_all (noEmptyOf S) ns \<Longrightarrow> list_all (noEmptyOf (insert t S)) (removeEmpty t ns)"
  by (induction t ns rule: removeEmpty.induct) (auto simp: removeEmpty_text[unfolded textOf_def])

lemma foldl_removeEmpty_noEmptyOf:
  "list_all (noEmptyOf S) ns \<Longrightarrow>
   list_all (noEmptyOf (set us \<union> S)) (foldl (\<lambda>ks tag. removeEmpty tag ks) ns us)"
proof (induction us arbitrary: ns S)
  case Nil then show ?case by simp
next
  case (Cons u us)
  from Cons.IH[OF removeEmpty_noEmptyOf[OF Cons.prems, of u]] show ?case by simp
qed

lemma cleanup_noEmptyInline: "list_all noEmptyInline (cleanupEmptyElements ns)"
proof -
  have "list_all (noEmptyOf {}) ns" by (simp add: list_all_iff noEmptyOf_empty)
  from foldl_removeEmpty_noEmptyOf[OF this, of INLINE_TAGS]
  show ?thesis by (simp add: cleanupEmptyElements_def Let_def INLINE_TAGS_def list_all_iff noEmptyInline_eq)
qed

lemma noEmptyInline_kidsAt:
  "list_all noEmptyInline d \<Longrightarrow> kidsAt d p = Some ks \<Longrightarrow> list_all noEmptyInline ks"
proof (induction d p rule: kidsAt.induct)
  case (1 ns) then show ?case by simp
next
  case (2 ns i p)
  then obtain t a cs where e: "i < length ns" "ns ! i = Element t a cs" "kidsAt cs p = Some ks"
    by (auto split: if_splits node.splits)
  from 2(2) e(1,2) have "list_all noEmptyInline cs" by (auto simp: list_all_length)
  from 2(1)[OF e(1,2) this e(3)] show ?case .
qed

lemma noEmptyInline_modifyAt:
  "kidsAt d p = Some ks \<Longrightarrow> textOf (f ks) = textOf ks \<Longrightarrow> list_all noEmptyInline (f ks) \<Longrightarrow>
   list_all noEmptyInline d \<Longrightarrow> list_all noEmptyInline (modifyAt p f d)"
proof (induction d p arbitrary: ks rule: kidsAt.induct)
  case (1 ns) then show ?case by simp
next
  case (2 ns i p)
  then obtain t a cs where e: "i < length ns" "ns ! i = Element t a cs" "kidsAt cs p = Some ks"
    by (auto split: if_splits node.splits)
  from 2(5) e(1,2) have n: "noEmptyInline (Element t a cs)" by (auto simp: list_all_length)
  then have c: "list_all noEmptyInline cs" by simp
  from 2(1)[OF e(1,2,3) 2(3,4) c] have i: "list_all noEmptyInline (modifyAt p f cs)" .
  from textOf_modifyAt[of cs p ks f, OF e(3) 2(3)] have t: "textOf (modifyAt p f cs) = textOf cs" .
  from n i t have "noEmptyInline (Element t a (modifyAt p f cs))" by (simp add: textOf_def)
  with 2(5) e(1,2) show ?case by (auto simp: list_all_length nth_list_update)
qed

lemma wrapRange_noEmptyInline:
  assumes "list_all noEmptyInline d" "wrapRange d r tag attrs = Inr res"
  shows "list_all noEmptyInline (newDoc res)"
proof -
  from wrapRange_Inr[OF assms(2)] obtain parent rest k w where st: "wrapStage d r tag attrs = Inr (parent, rest, k, w)"
    and res0: "res = (wrapKids rest k w parent)\<lparr>newDoc := modifyAt parent (\<lambda>_. newDoc (wrapKids rest k w parent)) d\<rparr>"
    by blast
  from wrapStage_text[OF st] obtain kids where k: "kidsAt d parent = Some kids" "textOf (insertAt k w rest) = textOf kids"
    by blast
  from res0 have "newDoc res = modifyAt parent (\<lambda>_. cleanupEmptyElements (insertAt k w rest)) d"
    by (simp add: wrapKids_def Let_def)
  then show ?thesis
    using noEmptyInline_modifyAt[OF k(1), of "\<lambda>_. cleanupEmptyElements (insertAt k w rest)"] k(2) assms(1)
    by (simp add: cleanup_text cleanup_noEmptyInline)
qed

lemma unwrapElement_noEmptyInline:
  assumes "nodeAt d p = Some (Element t a cs)" "list_all noEmptyInline d"
  shows "list_all noEmptyInline (unwrapElement p d)"
proof -
  from unwrapElement_splice[OF assms(1)] obtain sibs where s:
    "kidsAt d (butlast p) = Some sibs" "last p < length sibs" "sibs ! last p = Element t a cs"
    "unwrapElement p d = modifyAt (butlast p) (\<lambda>_. take (last p) sibs @ cs @ drop (Suc (last p)) sibs) d" by blast
  have tx: "textOf (take (last p) sibs @ cs @ drop (Suc (last p)) sibs) = textOf sibs"
    using textOf_nth_split[OF s(2)] s(3) by (simp add: textOf_def)
  from noEmptyInline_kidsAt[OF assms(2) s(1)] have a: "list_all noEmptyInline sibs" .
  with s(2,3) have "noEmptyInline (Element t a cs)" by (auto simp: list_all_length)
  then have c: "list_all noEmptyInline cs" by simp
  from a have "list_all noEmptyInline (take (last p) sibs)" "list_all noEmptyInline (drop (Suc (last p)) sibs)"
    by (auto simp: list_all_iff dest: in_set_takeD in_set_dropD)
  with c have "list_all noEmptyInline (take (last p) sibs @ cs @ drop (Suc (last p)) sibs)" by simp
  from noEmptyInline_modifyAt[OF s(1), of "\<lambda>_. take (last p) sibs @ cs @ drop (Suc (last p)) sibs", OF tx this assms(2)]
  show ?thesis using s(4) by simp
qed

lemma unwrapSelection_noEmptyInline:
  assumes "list_all noEmptyInline (doc st)"
  shows "list_all noEmptyInline (doc (unwrapSelection tag st))"
proof (cases "sel st")
  case None with assms show ?thesis by (simp add: unwrapSelection_def)
next
  case (Some s)
  show ?thesis
  proof (cases "rangeCount s = 0")
    case True with Some assms show ?thesis by (simp add: unwrapSelection_def)
  next
    case False
    show ?thesis
    proof (cases "walkUp (doc st) (anchorNode s) (\<lambda>node. isElement node \<and> tagName node = toUpperCase tag)")
      case None with \<open>sel st = Some s\<close> False assms show ?thesis by (simp add: unwrapSelection_def Let_def)
    next
      case (Some p)
      from walkUp_Some[OF Some] obtain n where n: "nodeAt (doc st) p = Some n" "isElement n" by blast
      then obtain t a cs where "n = Element t a cs" by (cases n) auto
      with n unwrapElement_noEmptyInline[of "doc st" p t a cs] assms
      have "list_all noEmptyInline (unwrapElement p (doc st))" by simp
      with \<open>sel st = Some s\<close> False Some show ?thesis by (simp add: unwrapSelection_def Let_def)
    qed
  qed
qed

text \<open>
  Wrapping prunes: when \<open>wrapRange\<close> returns, no inline element below the wrapper's
  parent is empty, whatever the tree was before.
\<close>

lemma wrapRange_prunes:
  assumes "wrapRange d r tag attrs = Inr res" "wrapStage d r tag attrs = Inr (parent, rest, k, w)"
  shows "\<exists>kids. kidsAt (newDoc res) parent = Some kids \<and> list_all noEmptyInline kids"
proof -
  from wrapRange_Inr[OF assms(1)] assms(2)
  have res: "res = (wrapKids rest k w parent)\<lparr>newDoc := modifyAt parent (\<lambda>_. newDoc (wrapKids rest k w parent)) d\<rparr>"
    by auto
  from wrapStage_text[OF assms(2)] obtain ks where ks: "kidsAt d parent = Some ks" by blast
  from res have "newDoc res = modifyAt parent (\<lambda>_. cleanupEmptyElements (insertAt k w rest)) d"
    by (simp add: wrapKids_def Let_def)
  with kidsAt_modifyAt[OF ks, of "\<lambda>_. cleanupEmptyElements (insertAt k w rest)"]
  show ?thesis by (simp add: cleanup_noEmptyInline)
qed

text \<open>
  Neither wrapping nor unwrapping empties an inline element for good: a tree without an
  empty inline element has none after \<open>unwrapSelection\<close>, \<open>toggleElement\<close> or
  \<open>wrapSelectionPerBlock\<close>.
\<close>

lemma noEmptyInline_preserved:
  assumes "list_all noEmptyInline (doc st)"
  shows "list_all noEmptyInline (doc (unwrapSelection tag st))
       \<and> (\<forall>st'. toggleElement tag st = Inr st' \<longrightarrow> list_all noEmptyInline (doc st'))
       \<and> (\<forall>st'. wrapSelectionPerBlock tag attrs st = Inr st' \<longrightarrow> list_all noEmptyInline (doc st'))"
proof -
  have w: "list_all noEmptyInline (doc st2)" if "wrapSelectionPerBlock tag at st = Inr st2" for st2 at
    using wrapSelectionPerBlock_invariant[of "list_all noEmptyInline" tag at st st2] that assms
      wrapRange_noEmptyInline by blast
  have t: "list_all noEmptyInline (doc st')" if "toggleElement tag st = Inr st'" for st'
    using that assms unwrapSelection_noEmptyInline[OF assms, of tag] w[of "[]"]
    by (auto simp: toggleElement_def Let_def split: option.splits if_splits)
  from unwrapSelection_noEmptyInline[OF assms, of tag] w t show ?thesis by blast
qed


end
